theory Spec2Isabelle
  imports Main "HOL-Library.Word"
begin

section \<open>Flow data model (pkg/proxy, flow types)\<close>

text \<open>
  Go strings and byte slices are byte sequences: both are \<^typ>\<open>string\<close> here, and
  \<open>length\<close> is Go's \<open>len\<close>. A \<open>time.Time\<close> is a tick count, \<open>0\<close> being the zero time.
  A header multimap is the list of its (key, values) entries in the order a \<open>range\<close>
  loop happens to visit them.
\<close>

datatype FlowState = FlowStateActive | FlowStateIntercepted | FlowStateComplete | FlowStateError

type_synonym Header = "(string \<times> string list) list"

text \<open>
  \<open>CapturedRequest\<close> and \<open>CapturedResponse\<close> declare four fields with the same names
  (\<open>Headers\<close>, \<open>Body\<close>, \<open>Proto\<close>, \<open>BodyTruncated\<close>); the shared fields are one base record, so
  that each keeps its source name on both types.
\<close>

record Captured =
  Headers :: Header
  Body :: string
  Proto :: string
  BodyTruncated :: bool

record CapturedRequest = Captured +
  Method :: string
  URL :: string
  Path :: string
  Host :: string

record CapturedResponse = Captured +
  StatusCode :: int

record Timestamps =
  Created :: nat
  RequestDone :: nat
  ResponseStart :: nat
  ResponseDone :: nat

text \<open>
  \<open>resumeCh\<close> is \<open>None\<close> for a nil channel and \<open>Some ()\<close> for the open channel made by
  \<open>Intercept\<close>. The mutex \<open>mu\<close> makes each method body atomic, which is how the methods are
  modelled.
\<close>

record Flow =
  ID :: string
  Upstream :: string
  Request :: "CapturedRequest option"
  Response :: "CapturedResponse option"
  Error :: string
  State :: FlowState
  Tags :: "string list"
  Timestamps :: Timestamps
  resumeCh :: "unit option"
  killed :: bool

text \<open>
  A \<open>*Flow\<close> is an address; the flows themselves live in a heap that the engine updates in
  place. The store only ever reads the \<open>ID\<close> field through the pointer.
\<close>

type_synonym flow_ptr = nat
type_synonym heap = "flow_ptr \<Rightarrow> Flow"

datatype FlowEventType = FlowEventNew | FlowEventUpdate | FlowEventComplete | FlowEventError

record FlowEvent =
  Type :: FlowEventType
  Flow :: flow_ptr

section \<open>FlowStore (pkg/proxy/flow\_store.go)\<close>

text \<open>
  The ring \<open>flows\<close> holds pointers or nil. \<open>capacity\<close>, \<open>head\<close> and \<open>count\<close> are Go \<open>int\<close>s
  that stay between 0 and the capacity, so they are naturals. A subscriber channel is its
  buffer of undelivered events, oldest first, of depth 128.
\<close>

record FlowStore =
  flows :: "flow_ptr option list"
  index :: "string \<rightharpoonup> flow_ptr"
  capacity :: nat
  head :: nat
  count :: nat
  subscribers :: "FlowEvent list list"

definition NewFlowStore :: "int \<Rightarrow> FlowStore" where
  "NewFlowStore c =
     (let capacity = (if c \<le> 0 then 1000 else c) in
      \<lparr>flows = replicate (nat capacity) None, index = Map.empty, capacity = nat capacity,
       head = 0, count = 0, subscribers = []\<rparr>)"

definition Subscribe :: "FlowStore \<Rightarrow> FlowStore" where
  "Subscribe s = s\<lparr>subscribers := subscribers s @ [[]]\<rparr>"

text \<open>The non-blocking send: an event is dropped for a channel whose buffer is full.\<close>

definition broadcast :: "FlowEvent list list \<Rightarrow> FlowEvent \<Rightarrow> FlowEvent list list" where
  "broadcast subs evt = map (\<lambda>ch. if length ch < 128 then ch @ [evt] else ch) subs"

definition Add :: "heap \<Rightarrow> flow_ptr \<Rightarrow> FlowStore \<Rightarrow> FlowStore" where
  "Add h f s =
     (let s1 = (if count s = capacity s then
                  (case flows s ! head s of
                     Some old \<Rightarrow> s\<lparr>index := (index s)(ID (h old) := None)\<rparr>
                   | None \<Rightarrow> s)
                else s\<lparr>count := count s + 1\<rparr>);
          s2 = s1\<lparr>flows := (flows s1)[head s1 := Some f],
                  index := (index s1)(ID (h f) \<mapsto> f),
                  head := (head s1 + 1) mod capacity s1\<rparr>
      in s2\<lparr>subscribers := broadcast (subscribers s2) \<lparr>Type = FlowEventNew, Flow = f\<rparr>\<rparr>)"

definition Update :: "flow_ptr \<Rightarrow> FlowEventType \<Rightarrow> FlowStore \<Rightarrow> FlowStore" where
  "Update f eventType s =
     s\<lparr>subscribers := broadcast (subscribers s) \<lparr>Type = eventType, Flow = f\<rparr>\<rparr>"

definition Get :: "FlowStore \<Rightarrow> string \<Rightarrow> flow_ptr option" where
  "Get s k = index s k"

text \<open>The two loops of \<open>All\<close> append the non-nil entries in the order visited.\<close>

definition All :: "FlowStore \<Rightarrow> flow_ptr list" where
  "All s =
     (if count s = 0 then []
      else if count s < capacity s then
        List.map_filter (\<lambda>i. flows s ! i) [0..<count s]
      else
        List.map_filter (\<lambda>i. flows s ! ((head s + i) mod capacity s)) [0..<capacity s])"

definition Clear :: "FlowStore \<Rightarrow> FlowStore" where
  "Clear s = s\<lparr>flows := replicate (capacity s) None, index := Map.empty, head := 0, count := 0\<rparr>"

definition Count :: "FlowStore \<Rightarrow> nat" where
  "Count s = count s"

text \<open>A run of \<open>Add\<close> calls, and a run of mixed store operations.\<close>

definition adds :: "heap \<Rightarrow> flow_ptr list \<Rightarrow> FlowStore \<Rightarrow> FlowStore" where
  "adds h fs s = fold (Add h) fs s"

datatype store_op = OpAdd flow_ptr | OpUpdate flow_ptr FlowEventType | OpClear

fun apply_store_op :: "heap \<Rightarrow> store_op \<Rightarrow> FlowStore \<Rightarrow> FlowStore" where
  "apply_store_op h (OpAdd f) s = Add h f s"
| "apply_store_op h (OpUpdate f t) s = Update f t s"
| "apply_store_op h OpClear s = Clear s"

definition run_store :: "heap \<Rightarrow> store_op list \<Rightarrow> FlowStore \<Rightarrow> FlowStore" where
  "run_store h ops s = fold (apply_store_op h) ops s"

fun added :: "store_op list \<Rightarrow> flow_ptr list" where
  "added [] = []"
| "added (OpAdd f # ops) = f # added ops"
| "added (_ # ops) = added ops"

text \<open>
  The ring invariant, for the flows \<open>fs\<close> added since the store was made or last cleared:
  the \<open>j\<close>-th of them sits in slot \<open>j mod capacity\<close> for as long as it is among the last
  \<open>capacity\<close> ones. Every index the operations use is inside the ring, so no slice access
  of \<open>Add\<close> or \<open>All\<close> is out of range.
\<close>

definition ring_inv :: "FlowStore \<Rightarrow> flow_ptr list \<Rightarrow> bool" where
  "ring_inv s fs \<longleftrightarrow>
     0 < capacity s \<and> length (flows s) = capacity s \<and>
     head s = length fs mod capacity s \<and> count s = min (length fs) (capacity s) \<and>
     (\<forall>j < length fs. length fs - j \<le> capacity s \<longrightarrow> flows s ! (j mod capacity s) = Some (fs ! j))"

definition stored :: "FlowStore \<Rightarrow> flow_ptr list \<Rightarrow> flow_ptr list" where
  "stored s fs = drop (length fs - capacity s) fs"

text \<open>The index invariant: the index maps exactly the ids of the flows still stored.\<close>

definition index_inv :: "heap \<Rightarrow> FlowStore \<Rightarrow> flow_ptr list \<Rightarrow> bool" where
  "index_inv h s fs \<longleftrightarrow>
     (\<forall>k p. index s k = Some p \<longleftrightarrow> p \<in> set (stored s fs) \<and> ID (h p) = k)"

text \<open>A blank active flow with a given id, and a heap of such flows with pairwise different ids.\<close>

definition blank_flow :: "string \<Rightarrow> Flow" where
  "blank_flow k = \<lparr>ID = k, Upstream = [], Request = None, Response = None, Error = [],
     State = FlowStateActive, Tags = [],
     Timestamps = \<lparr>Created = 0, RequestDone = 0, ResponseStart = 0, ResponseDone = 0\<rparr>,
     resumeCh = None, killed = False\<rparr>"

definition demo_heap :: heap where
  "demo_heap p = blank_flow (replicate p (CHR ''f''))"

definition demo_ops :: "store_op list" where
  "demo_ops = [OpAdd 0, OpAdd 1, OpUpdate 0 FlowEventComplete, OpAdd 2, OpClear, OpAdd 3, OpAdd 4, OpAdd 5]"

definition indexes :: "('k \<rightharpoonup> 'p) \<Rightarrow> ('p \<Rightarrow> 'k) \<Rightarrow> 'p set \<Rightarrow> bool" where
  "indexes m g A \<longleftrightarrow> (\<forall>k p. m k = Some p \<longleftrightarrow> p \<in> A \<and> g p = k)"

section \<open>Streams (io values the proxy handles)\<close>

text \<open>
  A call either returns or panics. Go \<open>error\<close> values are their messages; \<open>None\<close> is the nil
  error.
\<close>

datatype 'a outcome = Returns 'a | Panics

type_synonym int64 = "64 word"

text \<open>
  An \<open>io.ReadCloser\<close>: the bytes the stream still delivers, the error it ends with instead
  of \<open>io.EOF\<close> (if any), and whether \<open>Close\<close> has been called.
\<close>

record Reader =
  content :: string
  fails :: "string option"
  closed :: bool

definition bytes_NewReader :: "string \<Rightarrow> Reader" where
  "bytes_NewReader b = \<lparr>content = b, fails = None, closed = False\<rparr>"

text \<open>
  \<open>io.ReadAll (io.LimitReader r limit)\<close>: a limited reader with \<open>N \<le> 0\<close> reports \<open>EOF\<close>
  without touching \<open>r\<close>; otherwise at most \<open>limit\<close> bytes are taken from \<open>r\<close>, and the end of
  \<open>r\<close> is reached only when it holds fewer than \<open>limit\<close> bytes. \<open>Inl\<close> is the read error.
\<close>

definition ReadAll_LimitReader :: "Reader \<Rightarrow> int \<Rightarrow> (string + string) \<times> Reader" where
  "ReadAll_LimitReader r limit =
     (if limit \<le> 0 then (Inr [], r)
      else if limit \<le> int (length (content r)) then
        (Inr (take (nat limit) (content r)), r\<lparr>content := drop (nat limit) (content r)\<rparr>)
      else (case fails r of
              Some err \<Rightarrow> (Inl err, r\<lparr>content := []\<rparr>)
            | None \<Rightarrow> (Inr (content r), r\<lparr>content := []\<rparr>)))"

section \<open>Live requests and responses (net/http values the proxy handles)\<close>

text \<open>A parsed \<open>url.URL\<close>, with the fields the proxy reads.\<close>

record url =
  url_Scheme :: string
  url_Host :: string
  url_Path :: string
  url_RawQuery :: string

text \<open>
  The fields of \<open>http.Request\<close> and \<open>http.Response\<close> the engine touches. A request body is
  nil, the shared \<open>http.NoBody\<close>, or a stream. \<open>req_ctx\<close> is the value stored in the request
  context under \<open>flowContextKey\<close>; a response reaches it through \<open>resp.Request\<close>.
\<close>

datatype body = NilBody | NoBody | Stream Reader

record http_Request =
  req_Method :: string
  req_URL :: url
  req_Host :: string
  req_Header :: Header
  req_Proto :: string
  req_Body :: body
  req_ContentLength :: int
  req_ctx :: "flow_ptr option"

record http_Response =
  resp_StatusCode :: int
  resp_Header :: Header
  resp_Proto :: string
  resp_Body :: "Reader option"
  resp_ContentLength :: int
  resp_Request :: http_Request

section \<open>Router (pkg/proxy/router.go)\<close>

record Upstream =
  Name :: string
  Prefix :: string
  Target :: string
  parsed :: "url option"

record Router =
  upstreams :: "Upstream list"

text \<open>\<open>strings.HasPrefix\<close> on byte strings.\<close>

definition HasPrefix :: "string \<Rightarrow> string \<Rightarrow> bool" where
  "HasPrefix s pre \<longleftrightarrow> length pre \<le> length s \<and> take (length pre) s = pre"

text \<open>The loop of \<open>Match\<close> over the sorted upstreams; \<open>None\<close> is the nil result.\<close>

fun match_loop :: "Upstream list \<Rightarrow> string \<Rightarrow> Upstream option" where
  "match_loop [] path = None"
| "match_loop (u # us) path =
     (if Prefix u = ''/'' \<or> HasPrefix path (Prefix u) then Some u else match_loop us path)"

definition Match :: "Router \<Rightarrow> http_Request \<Rightarrow> Upstream option" where
  "Match r req = match_loop (upstreams r) (url_Path (req_URL req))"

subsection \<open>Construction of the router\<close>

text \<open>
  \<open>url.Parse\<close> and \<open>sort.Slice\<close> belong to the Go standard library; \<open>NewRouter\<close> takes them as
  parameters. A sorter is given the \<open>less\<close> function and the slice and returns the slice as
  it is after the call.
\<close>

type_synonym url_parser = "string \<Rightarrow> string + url"
type_synonym sorter = "(Upstream \<Rightarrow> Upstream \<Rightarrow> bool) \<Rightarrow> Upstream list \<Rightarrow> Upstream list"

text \<open>The error of \<open>NewRouter\<close>: the target, the name of the upstream, the error of \<open>url.Parse\<close>.\<close>

datatype router_error = InvalidTarget string string string

text \<open>The \<open>for\<close> loop of \<open>NewRouter\<close>; \<open>acc\<close> is \<open>r.upstreams\<close>, \<open>Inl\<close> the error return.\<close>

fun prepare :: "url_parser \<Rightarrow> Upstream list \<Rightarrow> Upstream list \<Rightarrow> router_error + Upstream list" where
  "prepare parse acc [] = Inr acc"
| "prepare parse acc (u0 # us) =
     (let u = (if Prefix u0 = [] then u0\<lparr>Prefix := ''/''\<rparr> else u0) in
      case parse (Target u) of
        Inl err \<Rightarrow> Inl (InvalidTarget (Target u) (Name u) err)
      | Inr p \<Rightarrow> prepare parse (acc @ [u\<lparr>parsed := Some p\<rparr>]) us)"

text \<open>The \<open>less\<close> function handed to \<open>sort.Slice\<close>, on the two elements it compares.\<close>

definition longer :: "Upstream \<Rightarrow> Upstream \<Rightarrow> bool" where
  "longer a b \<longleftrightarrow> length (Prefix a) > length (Prefix b)"

definition NewRouter :: "url_parser \<Rightarrow> sorter \<Rightarrow> Upstream list \<Rightarrow> router_error + Router" where
  "NewRouter parse sort_Slice ups =
     (case prepare parse [] ups of
        Inl err \<Rightarrow> Inl err
      | Inr us \<Rightarrow> Inr \<lparr>upstreams = sort_Slice longer us\<rparr>)"

text \<open>
  What the documentation of \<open>sort.Slice\<close> promises for this \<open>less\<close>: the slice holds the same
  elements as before, in an order in which no element is followed by one that is less. It adds
  that the sort is not guaranteed to be stable: equal elements may be reversed from their original order.
\<close>

definition sorts :: "sorter \<Rightarrow> bool" where
  "sorts srt \<longleftrightarrow>
     (\<forall>xs. (\<forall>x. count_list (srt longer xs) x = count_list xs x)
         \<and> sorted_wrt (\<lambda>a b. \<not> longer b a) (srt longer xs))"

text \<open>
  Two sorters by insertion. \<open>place\<close> puts an element in front of the first one that is not
  less than it. Taking the elements from the right keeps equal elements in their order;
  taking them from the left reverses them.
\<close>

fun place :: "('a \<Rightarrow> 'a \<Rightarrow> bool) \<Rightarrow> 'a \<Rightarrow> 'a list \<Rightarrow> 'a list" where
  "place lt x [] = [x]"
| "place lt x (y # ys) = (if lt y x then y # place lt x ys else x # y # ys)"

definition keeping_sort :: "('a \<Rightarrow> 'a \<Rightarrow> bool) \<Rightarrow> 'a list \<Rightarrow> 'a list" where
  "keeping_sort lt xs = foldr (place lt) xs []"

definition reversing_sort :: "('a \<Rightarrow> 'a \<Rightarrow> bool) \<Rightarrow> 'a list \<Rightarrow> 'a list" where
  "reversing_sort lt xs = fold (place lt) xs []"



text \<open>The request \<open>GET path\<close>, and upstreams to try the router on.\<close>

definition get_request :: "string \<Rightarrow> http_Request" where
  "get_request path =
     \<lparr>req_Method = ''GET'',
      req_URL = \<lparr>url_Scheme = [], url_Host = [], url_Path = path, url_RawQuery = []\<rparr>,
      req_Host = ''localhost'', req_Header = [], req_Proto = ''HTTP/1.1'', req_Body = NoBody,
      req_ContentLength = 0, req_ctx = None\<rparr>"

definition demo_parse :: url_parser where
  "demo_parse s = Inr \<lparr>url_Scheme = ''http'', url_Host = drop 7 s, url_Path = [], url_RawQuery = []\<rparr>"

definition up :: "string \<Rightarrow> string \<Rightarrow> Upstream" where
  "up name pre = \<lparr>Name = name, Prefix = pre, Target = ''http://'' @ name, parsed = None\<rparr>"

section \<open>Engine: bounded reads and body capture (pkg/proxy/engine.go)\<close>

text \<open>
  \<open>readLimited\<close>. \<open>maxBytes + 1\<close> is an \<open>int64\<close> addition and wraps; \<open>data[:maxBytes]\<close> panics
  for a negative bound. The deferred \<open>Close\<close> runs on every path. The result is the Go
  triple (bytes, truncated, error) and the reader as the call leaves it.
\<close>

definition readLimited :: "Reader \<Rightarrow> int64 \<Rightarrow> (string \<times> bool \<times> string option) outcome \<times> Reader" where
  "readLimited r maxBytes =
     (let limit = maxBytes + 1;
          (res, r1) = ReadAll_LimitReader r (sint limit);
          r2 = r1\<lparr>closed := True\<rparr>
      in case res of
           Inl err \<Rightarrow> (Returns ([], False, Some err), r2)
         | Inr data \<Rightarrow>
             if int (length data) > sint maxBytes then
               (if sint maxBytes < 0 then (Panics, r2)
                else (Returns (take (nat (sint maxBytes)) data, True, None), r2))
             else (Returns (data, False, None), r2))"

text \<open>
  Both capture functions work on the flow behind the pointer; the caller writes the result
  back to the heap. A nil \<open>flow.Request\<close> would be a nil dereference.
\<close>

definition captureRequestBody ::
  "Flow \<Rightarrow> http_Request \<Rightarrow> int64 \<Rightarrow> (Flow \<times> http_Request \<times> string option) outcome" where
  "captureRequestBody flow r maxBytes =
     (case req_Body r of
        NilBody \<Rightarrow> Returns (flow, r, None)
      | NoBody \<Rightarrow> Returns (flow, r, None)
      | Stream rd \<Rightarrow>
          (case readLimited rd maxBytes of
             (Panics, rd') \<Rightarrow> Panics
           | (Returns (body, truncated, Some err), rd') \<Rightarrow>
               Returns (flow, r\<lparr>req_Body := Stream rd'\<rparr>, Some err)
           | (Returns (body, truncated, None), rd') \<Rightarrow>
               (let r' = r\<lparr>req_Body := Stream (bytes_NewReader body),
                           req_ContentLength := int (length body)\<rparr>
                in case Request flow of
                     None \<Rightarrow> Panics
                   | Some cr \<Rightarrow>
                       Returns (flow\<lparr>Request := Some (cr\<lparr>Body := body, BodyTruncated := truncated\<rparr>)\<rparr>,
                                r', None))))"

definition captureResponseBody ::
  "Flow \<Rightarrow> http_Response \<Rightarrow> int64 \<Rightarrow> (Flow \<times> http_Response \<times> string option) outcome" where
  "captureResponseBody flow resp maxBytes =
     (let captured = \<lparr>Headers = resp_Header resp, Body = [], Proto = resp_Proto resp,
                       BodyTruncated = False, StatusCode = resp_StatusCode resp\<rparr>;
          flow1 = flow\<lparr>Response := Some captured\<rparr>
      in case resp_Body resp of
           None \<Rightarrow> Returns (flow1, resp, None)
         | Some rd \<Rightarrow>
             (case readLimited rd maxBytes of
                (Panics, rd') \<Rightarrow> Panics
              | (Returns (body, truncated, Some err), rd') \<Rightarrow>
                  Returns (flow1, resp\<lparr>resp_Body := Some rd'\<rparr>, Some err)
              | (Returns (body, truncated, None), rd') \<Rightarrow>
                  Returns (flow1\<lparr>Response := Some (captured\<lparr>Body := body, BodyTruncated := truncated\<rparr>)\<rparr>,
                           resp\<lparr>resp_Body := Some (bytes_NewReader body),
                                resp_ContentLength := int (length body)\<rparr>,
                           None)))"

text \<open>A request whose body is a stream of the given bytes that ends in \<open>EOF\<close>.\<close>

definition request_with_body :: "string \<Rightarrow> http_Request" where
  "request_with_body b =
     \<lparr>req_Method = ''POST'',
      req_URL = \<lparr>url_Scheme = [], url_Host = [], url_Path = ''/x'', url_RawQuery = []\<rparr>,
      req_Host = ''localhost'', req_Header = [], req_Proto = ''HTTP/1.1'',
      req_Body = Stream (bytes_NewReader b), req_ContentLength = int (length b),
      req_ctx = None\<rparr>"

text \<open>A flow as \<open>newFlow\<close> leaves it for a request without headers.\<close>

definition fresh_flow :: Flow where
  "fresh_flow = (blank_flow ''id-1'')\<lparr>Request := Some
     \<lparr>Headers = [], Body = [], Proto = ''HTTP/1.1'', BodyTruncated = False,
      Method = ''POST'', URL = ''/x'', Path = ''/x'', Host = ''localhost''\<rparr>\<rparr>"

text \<open>The captured body and truncation flag of a flow, when the capture returned without error.\<close>

definition captured_of :: "(Flow \<times> http_Request \<times> string option) outcome \<Rightarrow> (string \<times> bool) option" where
  "captured_of res =
     (case res of
        Returns (flow, r, None) \<Rightarrow> map_option (\<lambda>cr. (Body cr, BodyTruncated cr)) (Request flow)
      | _ \<Rightarrow> None)"

section \<open>Flow methods (pkg/proxy, flow types)\<close>

text \<open>
  \<open>Intercept\<close> sets the state, makes the channel and then waits on it; the wait is the
  caller's, the writes are these. \<open>Resume\<close> and \<open>Kill\<close> close the channel and clear the field.
\<close>

definition Intercept :: "Flow \<Rightarrow> Flow" where
  "Intercept f = f\<lparr>State := FlowStateIntercepted, resumeCh := Some ()\<rparr>"

definition Resume :: "Flow \<Rightarrow> Flow" where
  "Resume f =
     (let f1 = (if resumeCh f \<noteq> None \<and> \<not> killed f then f\<lparr>resumeCh := None\<rparr> else f)
      in f1\<lparr>State := FlowStateActive\<rparr>)"

definition Kill :: "Flow \<Rightarrow> Flow" where
  "Kill f =
     (let f1 = f\<lparr>killed := True\<rparr>;
          f2 = (if resumeCh f1 \<noteq> None then f1\<lparr>resumeCh := None\<rparr> else f1)
      in f2\<lparr>State := FlowStateError, Error := ''flow killed''\<rparr>)"

section \<open>Addon pipeline (pkg/proxy, addon types)\<close>

text \<open>
  An addon implements any of the four hook interfaces. A hook is handed the flow pointer
  and may write to the flow: it is the function from the flow it finds to the flow it
  leaves.
\<close>

record Addon =
  OnRequest :: "(Flow \<Rightarrow> Flow) option"
  OnResponse :: "(Flow \<Rightarrow> Flow) option"
  OnComplete :: "(Flow \<Rightarrow> Flow) option"
  OnError :: "(Flow \<Rightarrow> string \<Rightarrow> Flow) option"

definition FireRequest :: "Addon list \<Rightarrow> Flow \<Rightarrow> Flow" where
  "FireRequest as flow = fold (\<lambda>a f. case OnRequest a of Some hk \<Rightarrow> hk f | None \<Rightarrow> f) as flow"

definition FireResponse :: "Addon list \<Rightarrow> Flow \<Rightarrow> Flow" where
  "FireResponse as flow = fold (\<lambda>a f. case OnResponse a of Some hk \<Rightarrow> hk f | None \<Rightarrow> f) as flow"

definition FireComplete :: "Addon list \<Rightarrow> Flow \<Rightarrow> Flow" where
  "FireComplete as flow = fold (\<lambda>a f. case OnComplete a of Some hk \<Rightarrow> hk f | None \<Rightarrow> f) as flow"

definition FireError :: "Addon list \<Rightarrow> Flow \<Rightarrow> string \<Rightarrow> Flow" where
  "FireError as flow err = fold (\<lambda>a f. case OnError a of Some hk \<Rightarrow> hk f err | None \<Rightarrow> f) as flow"

text \<open>Every hook of the addon leaves the part \<open>sel\<close> of the flow as it finds it.\<close>

definition keeps :: "(Flow \<Rightarrow> 'a) \<Rightarrow> Addon \<Rightarrow> bool" where
  "keeps sel a \<longleftrightarrow>
     (\<forall>hk f. OnRequest a = Some hk \<longrightarrow> sel (hk f) = sel f) \<and>
     (\<forall>hk f. OnResponse a = Some hk \<longrightarrow> sel (hk f) = sel f) \<and>
     (\<forall>hk f. OnComplete a = Some hk \<longrightarrow> sel (hk f) = sel f) \<and>
     (\<forall>hk f err. OnError a = Some hk \<longrightarrow> sel (hk f err) = sel f)"

text \<open>The shape of the built-in log addon: it reads the flow on completion and on error.\<close>

definition log_addon :: Addon where
  "log_addon = \<lparr>OnRequest = None, OnResponse = None, OnComplete = Some (\<lambda>f. f),
     OnError = Some (\<lambda>f err. f)\<rparr>"

section \<open>Engine: callbacks and replay (pkg/proxy/engine.go)\<close>

record Options =
  ListenAddr :: string
  WebPort :: int
  Upstreams :: "Upstream list"
  MaxFlows :: int
  MaxBodySize :: int64

text \<open>
  The engine's fixed parts. \<open>proxies\<close> is the key set of the map from upstream names to
  reverse proxies. The engine's one \<open>FlowStore\<close>, the flows behind the pointers and the next
  unused address are the mutable world.
\<close>

record Engine =
  addons :: "Addon list"
  router :: Router
  proxies :: "string list"
  opts :: Options

record World =
  heap :: heap
  next_ptr :: flow_ptr
  store :: FlowStore

text \<open>
  \<open>modifyResponse\<close>; \<open>t1\<close> and \<open>t2\<close> are the two readings of \<open>time.Now\<close>. The result is the
  world, the live response as the reverse proxy gets it back, and the returned error.
\<close>

definition modifyResponse ::
  "Engine \<Rightarrow> nat \<Rightarrow> nat \<Rightarrow> http_Response \<Rightarrow> World \<Rightarrow> (World \<times> http_Response \<times> string option) outcome" where
  "modifyResponse e t1 t2 resp w =
     (case req_ctx (resp_Request resp) of
        None \<Rightarrow> Returns (w, resp, None)
      | Some p \<Rightarrow>
          (let flow = heap w p;
               flow1 = flow\<lparr>Timestamps := (Timestamps flow)\<lparr>ResponseStart := t1\<rparr>\<rparr>
           in case captureResponseBody flow1 resp (MaxBodySize (opts e)) of
                Panics \<Rightarrow> Panics
              | Returns (flow2, resp', err) \<Rightarrow>
                  (let flow3 = (case err of
                                  None \<Rightarrow> flow2
                                | Some _ \<Rightarrow>
                                    flow2\<lparr>Response := map_option
                                      (\<lambda>c. c\<lparr>Body := [], BodyTruncated := True\<rparr>) (Response flow2)\<rparr>);
                       flow4 = flow3\<lparr>Timestamps := (Timestamps flow3)\<lparr>ResponseDone := t2\<rparr>,
                                     State := FlowStateComplete\<rparr>;
                       flow5 = FireComplete (addons e) (FireResponse (addons e) flow4)
                   in Returns (w\<lparr>heap := (heap w)(p := flow5),
                                  store := Update p FlowEventComplete (store w)\<rparr>,
                               resp', None))))"

text \<open>
  \<open>errorHandler\<close>; the result is the world and the reply written to the client (status and
  text body, as \<open>http.Error\<close> writes them).
\<close>

definition errorHandler ::
  "Engine \<Rightarrow> nat \<Rightarrow> http_Request \<Rightarrow> string \<Rightarrow> World \<Rightarrow> World \<times> (int \<times> string)" where
  "errorHandler e t r err w =
     (let w' = (case req_ctx r of
                  None \<Rightarrow> w
                | Some p \<Rightarrow>
                    (let flow = heap w p;
                         flow1 = flow\<lparr>State := FlowStateError, Error := err,
                                      Timestamps := (Timestamps flow)\<lparr>ResponseDone := t\<rparr>\<rparr>;
                         flow2 = FireError (addons e) flow1 err
                     in w\<lparr>heap := (heap w)(p := flow2),
                          store := Update p FlowEventError (store w)\<rparr>))
      in (w', (502, ''upstream error: '' @ err @ [CHR 0x0A])))"

text \<open>
  \<open>url.URL.String\<close> for a URL without user info, fragment or characters that need
  escaping.
\<close>

definition url_String :: "url \<Rightarrow> string" where
  "url_String u =
     (if url_Scheme u = [] then [] else url_Scheme u @ '':'') @
     (if url_Host u = [] then [] else ''//'' @ url_Host u) @
     url_Path u @
     (if url_RawQuery u = [] then [] else ''?'' @ url_RawQuery u)"

text \<open>\<open>newFlow\<close>, with the id \<open>uuid.New\<close> hands out and the reading of \<open>time.Now\<close>.\<close>

definition newFlow :: "string \<Rightarrow> nat \<Rightarrow> http_Request \<Rightarrow> Upstream \<Rightarrow> Flow" where
  "newFlow uuid now r upstream =
     \<lparr>ID = uuid, Upstream = Name upstream,
      Request = Some \<lparr>Headers = req_Header r, Body = [], Proto = req_Proto r, BodyTruncated = False,
                      Method = req_Method r, URL = url_String (req_URL r),
                      Path = url_Path (req_URL r), Host = req_Host r\<rparr>,
      Response = None, Error = [], State = FlowStateActive, Tags = [],
      Timestamps = \<lparr>Created = now, RequestDone = 0, ResponseStart = 0, ResponseDone = 0\<rparr>,
      resumeCh = None, killed = False\<rparr>"

text \<open>
  The standard library functions \<open>rebuildRequest\<close> relies on, as parameters: the method
  check and URL parser inside \<open>http.NewRequest\<close>, and the canonical form of a header key
  that \<open>Header.Add\<close> applies.
\<close>

record stdlib =
  validMethod :: "string \<Rightarrow> bool"
  url_Parse :: "string \<Rightarrow> string + url"
  CanonicalMIMEHeaderKey :: "string \<Rightarrow> string"

definition Header_Add :: "stdlib \<Rightarrow> string \<Rightarrow> string \<Rightarrow> Header \<Rightarrow> Header" where
  "Header_Add lib key v hdr =
     (let k = CanonicalMIMEHeaderKey lib key in
      if k \<in> fst ` set hdr then map (\<lambda>(k', vv). if k' = k then (k', vv @ [v]) else (k', vv)) hdr
      else hdr @ [(k, [v])])"

definition http_NewRequest :: "stdlib \<Rightarrow> string \<Rightarrow> string \<Rightarrow> string \<Rightarrow> string + http_Request" where
  "http_NewRequest lib method urlstr b =
     (let method' = (if method = [] then ''GET'' else method) in
      if \<not> validMethod lib method' then Inl (''net/http: invalid method '' @ method')
      else case url_Parse lib urlstr of
             Inl err \<Rightarrow> Inl err
           | Inr u \<Rightarrow>
               Inr \<lparr>req_Method = method', req_URL = u, req_Host = url_Host u, req_Header = [],
                    req_Proto = ''HTTP/1.1'',
                    req_Body = (if b = [] then NoBody else Stream (bytes_NewReader b)),
                    req_ContentLength = int (length b), req_ctx = None\<rparr>)"

definition rebuildRequest :: "stdlib \<Rightarrow> CapturedRequest \<Rightarrow> string + http_Request" where
  "rebuildRequest lib cr =
     (case http_NewRequest lib (Method cr) (URL cr) (Body cr) of
        Inl err \<Rightarrow> Inl err
      | Inr req \<Rightarrow>
          Inr (req\<lparr>req_Header :=
                 fold (\<lambda>(k, vv) hdr. fold (\<lambda>v hdr'. Header_Add lib k v hdr') vv hdr)
                   (Headers cr) (req_Header req)\<rparr>))"

text \<open>\<open>cloneRequest\<close>: the copies of the body slice and of the header map hold the same bytes.\<close>

definition cloneRequest :: "CapturedRequest \<Rightarrow> CapturedRequest" where
  "cloneRequest cr =
     \<lparr>Headers = Headers cr, Body = Body cr, Proto = Proto cr, BodyTruncated = BodyTruncated cr,
      Method = Method cr, URL = URL cr, Path = Path cr, Host = Host cr\<rparr>"

text \<open>
  \<open>httputil.ReverseProxy.ServeHTTP\<close> as the engine configures it: the director and the
  transport are represented by the outcome of the round trip; a response goes through
  \<open>ModifyResponse\<close> (an error from it would go to \<open>ErrorHandler\<close>), a failure through
  \<open>ErrorHandler\<close>. What is written to the response writer is not kept: \<open>Replay\<close> discards
  its recorder.
\<close>

datatype round_trip = Responds http_Response | Fails string

definition proxy_ServeHTTP ::
  "Engine \<Rightarrow> nat \<Rightarrow> nat \<Rightarrow> round_trip \<Rightarrow> http_Request \<Rightarrow> World \<Rightarrow> World outcome" where
  "proxy_ServeHTTP e t1 t2 rt req w =
     (case rt of
        Fails err \<Rightarrow> Returns (fst (errorHandler e t2 req err w))
      | Responds resp \<Rightarrow>
          (case modifyResponse e t1 t2 (resp\<lparr>resp_Request := req\<rparr>) w of
             Panics \<Rightarrow> Panics
           | Returns (w', resp', None) \<Rightarrow> Returns w'
           | Returns (w', resp', Some err) \<Rightarrow> Returns (fst (errorHandler e t2 req err w'))))"

datatype replay_error =
  FlowNotFound string
  | NoCapturedRequest string
  | RebuildRequest string
  | NoUpstreamForPath string
  | UpstreamNotConfigured string

text \<open>
  \<open>Replay\<close>. \<open>uuid\<close> is the id \<open>uuid.New\<close> hands out, \<open>now\<close>, \<open>t1\<close>, \<open>t2\<close> the clock readings, \<open>rt\<close>
  the outcome of the upstream round trip. The new flow is allocated at the next unused
  address. The result is the returned pair: an error, or the flow pointer (possibly nil).
\<close>

definition Replay ::
  "stdlib \<Rightarrow> Engine \<Rightarrow> string \<Rightarrow> nat \<Rightarrow> nat \<Rightarrow> nat \<Rightarrow> round_trip \<Rightarrow> string \<Rightarrow> World
     \<Rightarrow> (World \<times> (replay_error + flow_ptr option)) outcome" where
  "Replay lib e uuid now t1 t2 rt flowID w =
     (case Get (store w) flowID of
        None \<Rightarrow> Returns (w, Inl (FlowNotFound flowID))
      | Some original \<Rightarrow>
          (case Request (heap w original) of
             None \<Rightarrow> Returns (w, Inl (NoCapturedRequest flowID))
           | Some cr \<Rightarrow>
               (case rebuildRequest lib cr of
                  Inl err \<Rightarrow> Returns (w, Inl (RebuildRequest err))
                | Inr req \<Rightarrow>
                    (case Match (router e) req of
                       None \<Rightarrow> Returns (w, Inl (NoUpstreamForPath (url_Path (req_URL req))))
                     | Some upstream \<Rightarrow>
                         (let flow = newFlow uuid now req upstream;
                              flow1 = flow\<lparr>Tags := Tags flow @ [''replay'', ''replay:'' @ flowID]\<rparr>;
                              flow2 = flow1\<lparr>Request := Some (cloneRequest cr)\<rparr>;
                              p = next_ptr w;
                              w1 = w\<lparr>heap := (heap w)(p := flow2), next_ptr := p + 1\<rparr>;
                              w2 = w1\<lparr>store := Add (heap w1) p (store w1)\<rparr>;
                              req1 = req\<lparr>req_ctx := Some p\<rparr>
                          in if Name upstream \<notin> set (proxies e) then
                               Returns (w2, Inl (UpstreamNotConfigured (Name upstream)))
                             else
                               (case proxy_ServeHTTP e t1 t2 rt req1 w2 of
                                  Panics \<Rightarrow> Panics
                                | Returns w3 \<Rightarrow>
                                    Returns (w3, Inr (Get (store w3) (ID (heap w3 p))))))))))"

section \<open>Flow lifecycle\<close>

text \<open>
  The operations that write a flow's state, applied to the flow behind pointer \<open>p\<close>: the
  three flow methods and the two callbacks of the reverse proxy for a request that carries
  \<open>p\<close> in its context.
\<close>

datatype flow_op =
  DoIntercept
  | DoResume
  | DoKill
  | DoResponse nat nat http_Response
  | DoUpstreamError nat string

definition with_flow :: "flow_ptr \<Rightarrow> http_Request \<Rightarrow> http_Request" where
  "with_flow p r = r\<lparr>req_ctx := Some p\<rparr>"

fun flow_step :: "Engine \<Rightarrow> flow_ptr \<Rightarrow> flow_op \<Rightarrow> World \<Rightarrow> World outcome" where
  "flow_step e p DoIntercept w = Returns (w\<lparr>heap := (heap w)(p := Intercept (heap w p))\<rparr>)"
| "flow_step e p DoResume w = Returns (w\<lparr>heap := (heap w)(p := Resume (heap w p))\<rparr>)"
| "flow_step e p DoKill w = Returns (w\<lparr>heap := (heap w)(p := Kill (heap w p))\<rparr>)"
| "flow_step e p (DoResponse t1 t2 resp) w =
     (case modifyResponse e t1 t2 (resp\<lparr>resp_Request := with_flow p (resp_Request resp)\<rparr>) w of
        Panics \<Rightarrow> Panics
      | Returns (w', resp', err) \<Rightarrow> Returns w')"
| "flow_step e p (DoUpstreamError t err) w =
     Returns (fst (errorHandler e t (with_flow p (request_with_body [])) err w))"

text \<open>The states the flow shows after each operation; a panic ends the sequence.\<close>

fun states_after :: "Engine \<Rightarrow> flow_ptr \<Rightarrow> flow_op list \<Rightarrow> World \<Rightarrow> FlowState list" where
  "states_after e p [] w = []"
| "states_after e p (x # xs) w =
     (case flow_step e p x w of
        Panics \<Rightarrow> []
      | Returns w' \<Rightarrow> State (heap w' p) # states_after e p xs w')"



fun steps_by :: "(FlowState \<Rightarrow> FlowState \<Rightarrow> bool) \<Rightarrow> FlowState list \<Rightarrow> bool" where
  "steps_by R (a # b # rest) = (R a b \<and> steps_by R (b # rest))"
| "steps_by R _ = True"




text \<open>The state each operation writes.\<close>

fun target :: "flow_op \<Rightarrow> FlowState" where
  "target DoIntercept = FlowStateIntercepted"
| "target DoResume = FlowStateActive"
| "target DoKill = FlowStateError"
| "target (DoResponse t1 t2 resp) = FlowStateComplete"
| "target (DoUpstreamError t err) = FlowStateError"

text \<open>An engine without addons and a world that holds one fresh flow at address 0.\<close>

definition plain_engine :: Engine where
  "plain_engine =
     \<lparr>addons = [], router = \<lparr>upstreams = []\<rparr>, proxies = [],
      opts = \<lparr>ListenAddr = '':9090'', WebPort = 9091, Upstreams = [], MaxFlows = 1000,
              MaxBodySize = 1048576\<rparr>\<rparr>"

definition logging_engine :: Engine where
  "logging_engine = plain_engine\<lparr>addons := [log_addon]\<rparr>"

definition one_flow_world :: World where
  "one_flow_world =
     \<lparr>heap = (\<lambda>p. fresh_flow), next_ptr = 1, store = Add (\<lambda>p. fresh_flow) 0 (NewFlowStore 1000)\<rparr>"

text \<open>A response whose body stream holds the given bytes and ends with the given error, if any.\<close>

definition response_with_body :: "string \<Rightarrow> string option \<Rightarrow> http_Response" where
  "response_with_body b err =
     \<lparr>resp_StatusCode = 200, resp_Header = [(''Content-Type'', [''text/plain''])],
      resp_Proto = ''HTTP/1.1'', resp_Body = Some \<lparr>content = b, fails = err, closed = False\<rparr>,
      resp_ContentLength = - 1, resp_Request = with_flow 0 (request_with_body [])\<rparr>"

text \<open>
  A library stand-in that accepts every method and reads a URL as a bare path, and an
  engine with the log addon and one catch-all upstream.
\<close>

definition demo_lib :: stdlib where
  "demo_lib =
     \<lparr>validMethod = (\<lambda>m. True),
      url_Parse = (\<lambda>s. Inr \<lparr>url_Scheme = [], url_Host = [], url_Path = s, url_RawQuery = []\<rparr>),
      CanonicalMIMEHeaderKey = (\<lambda>k. k)\<rparr>"

definition default_upstream :: Upstream where
  "default_upstream =
     \<lparr>Name = ''default'', Prefix = ''/'', Target = ''http://127.0.0.1:18081'',
      parsed = Some \<lparr>url_Scheme = ''http'', url_Host = ''127.0.0.1:18081'', url_Path = [],
                     url_RawQuery = []\<rparr>\<rparr>"

definition routing_engine :: Engine where
  "routing_engine =
     logging_engine\<lparr>router := \<lparr>upstreams = [default_upstream]\<rparr>, proxies := [''default'']\<rparr>"

section \<open>One run of the request handler, seen from the flow\<close>












section \<open>Filter language (pkg/filter/filter.go)\<close>

subsection \<open>String helpers of the standard library\<close>

text \<open>
  \<open>strings.Contains\<close>, \<open>strconv.Itoa\<close> and \<open>strings.SplitN s ":" 2\<close> on byte strings.
  \<open>strings.ToUpper\<close>, \<open>strings.ToLower\<close> and \<open>strings.TrimSpace\<close> are given on ASCII: letters
  \<open>a\<close>-\<open>z\<close> and \<open>A\<close>-\<open>Z\<close> are mapped and the six ASCII white-space bytes trimmed, every other
  byte is left alone (Go also maps and trims the non-ASCII letters and spaces of Unicode).
  Nothing proved below depends on which bytes these three functions change.
\<close>

fun Contains :: "string \<Rightarrow> string \<Rightarrow> bool" where
  "Contains [] sub = (sub = [])"
| "Contains (c # cs) sub = (HasPrefix (c # cs) sub \<or> Contains cs sub)"

definition ToUpper :: "string \<Rightarrow> string" where
  "ToUpper s = map (\<lambda>c. if 97 \<le> (of_char c :: nat) \<and> (of_char c :: nat) \<le> 122
                         then char_of ((of_char c :: nat) - 32) else c) s"

definition ToLower :: "string \<Rightarrow> string" where
  "ToLower s = map (\<lambda>c. if 65 \<le> (of_char c :: nat) \<and> (of_char c :: nat) \<le> 90
                         then char_of ((of_char c :: nat) + 32) else c) s"

definition isSpace :: "char \<Rightarrow> bool" where
  "isSpace c \<longleftrightarrow> (of_char c :: nat) \<in> {9, 10, 11, 12, 13, 32}"

definition TrimSpace :: "string \<Rightarrow> string" where
  "TrimSpace s = rev (dropWhile isSpace (rev (dropWhile isSpace s)))"

fun digits :: "nat \<Rightarrow> string" where
  "digits n = (if n < 10 then [char_of (48 + n)] else digits (n div 10) @ [char_of (48 + n mod 10)])"

definition Itoa :: "int \<Rightarrow> string" where
  "Itoa i = (if i < 0 then CHR ''-'' # digits (nat (- i)) else digits (nat i))"

definition SplitN2 :: "string \<Rightarrow> string list" where
  "SplitN2 s =
     (let a = takeWhile (\<lambda>c. c \<noteq> CHR '':'') s in
      if length a = length s then [s] else [a, drop (length a + 1) s])"

subsection \<open>Predicates\<close>

type_synonym Filter = "Flow \<Rightarrow> bool"

definition MatchAll :: Filter where
  "MatchAll = (\<lambda>_. True)"

definition methodFilter :: "string \<Rightarrow> Filter" where
  "methodFilter arg =
     (let upper = ToUpper arg in
      (\<lambda>f. case Request f of None \<Rightarrow> False | Some r \<Rightarrow> Contains (ToUpper (Method r)) upper))"

definition statusFilter :: "string \<Rightarrow> Filter" where
  "statusFilter arg =
     (\<lambda>f. case Response f of None \<Rightarrow> False | Some r \<Rightarrow> HasPrefix (Itoa (StatusCode r)) arg)"

definition pathFilter :: "string \<Rightarrow> Filter" where
  "pathFilter arg =
     (let lower = ToLower arg in
      (\<lambda>f. case Request f of None \<Rightarrow> False | Some r \<Rightarrow> Contains (ToLower (Path r)) lower))"

text \<open>
  The \<open>range\<close> loop of \<open>headerFilter\<close> over one header map, entries in the order the runtime
  visits them; \<open>True\<close> is the early \<open>return true\<close>.
\<close>

fun header_loop :: "string \<Rightarrow> string \<Rightarrow> Header \<Rightarrow> bool" where
  "header_loop key val [] = False"
| "header_loop key val ((k, vv) # rest) =
     (if Contains (ToLower k) key then
        (if val = [] then True
         else if list_ex (\<lambda>v. Contains (ToLower v) val) vv then True
         else header_loop key val rest)
      else header_loop key val rest)"

definition headerFilter :: "string \<Rightarrow> Filter" where
  "headerFilter arg =
     (let parts = SplitN2 arg;
          key = ToLower (parts ! 0);
          val = (if length parts = 2 then ToLower (parts ! 1) else [])
      in (\<lambda>f.
           if (case Request f of None \<Rightarrow> False | Some r \<Rightarrow> header_loop key val (Headers r)) then True
           else if (case Response f of None \<Rightarrow> False | Some r \<Rightarrow> header_loop key val (Headers r))
           then True
           else False))"

definition bodyFilter :: "string \<Rightarrow> Filter" where
  "bodyFilter arg =
     (let lower = ToLower arg in
      (\<lambda>f. if (case Request f of None \<Rightarrow> False | Some r \<Rightarrow> Contains (ToLower (Body r)) lower) then True
           else if (case Response f of None \<Rightarrow> False | Some r \<Rightarrow> Contains (ToLower (Body r)) lower)
           then True
           else False))"

definition upstreamFilter :: "string \<Rightarrow> Filter" where
  "upstreamFilter arg =
     (let lower = ToLower arg in (\<lambda>f. Contains (ToLower (Upstream f)) lower))"

subsection \<open>Parser\<close>

text \<open>
  The parse errors, one constructor per \<open>fmt.Errorf\<close> call of the parser. A constructor has
  a position argument exactly when the format string of its message has \<open>%d\<close> for
  \<open>p.pos\<close>.
\<close>

datatype parse_error =
  UnexpectedToken nat string
  | UnexpectedEnd
  | ExpectedClosingParen
  | ExpectedTilde nat
  | ExpectedTypeAfterTilde
  | UnknownFilterType char
  | ExpectedArgument
  | EmptyArgument nat
  | UnterminatedQuoted

fun position :: "parse_error \<Rightarrow> nat option" where
  "position (UnexpectedToken pos rest) = Some pos"
| "position (ExpectedTilde pos) = Some pos"
| "position (EmptyArgument pos) = Some pos"
| "position _ = None"

text \<open>
  A parser call returns a value (\<open>Ok\<close>) or an error (\<open>Err\<close>), or panics on an index out of
  range (\<open>Panic\<close>). The mutually recursive parse functions and their loops take fuel, one unit per
  call; \<open>NoFuel\<close> is the result of a call that runs out of it.
\<close>

datatype 'a result = Ok 'a | Err parse_error | Panic | NoFuel

definition propagate :: "'a result \<Rightarrow> 'b result" where
  "propagate r = (case r of Err e \<Rightarrow> Err e | Panic \<Rightarrow> Panic | _ \<Rightarrow> NoFuel)"

definition error_of :: "'a result \<Rightarrow> parse_error option" where
  "error_of r = (case r of Err e \<Rightarrow> Some e | _ \<Rightarrow> None)"

text \<open>An index expression \<open>s[i]\<close> and a slice expression \<open>s[i:j]\<close>; \<open>None\<close> is the run-time panic.\<close>

definition byte_at :: "string \<Rightarrow> nat \<Rightarrow> char option" where
  "byte_at s i = (if i < length s then Some (s ! i) else None)"

definition slice :: "string \<Rightarrow> nat \<Rightarrow> nat \<Rightarrow> string option" where
  "slice s i j = (if i \<le> j \<and> j \<le> length s then Some (take (j - i) (drop i s)) else None)"

text \<open>
  The scanning loops. Go evaluates \<open>&&\<close> left to right, so an index guarded by
  \<open>p.pos < len(p.input)\<close> in the same condition is in range.
\<close>

function skipWS :: "string \<Rightarrow> nat \<Rightarrow> nat" where
  "skipWS inp pos =
     (if pos < length inp \<and> (inp ! pos = CHR '' '' \<or> inp ! pos = CHR 0x09)
      then skipWS inp (pos + 1) else pos)"
  by pat_completeness auto
termination
  by (relation "measure (\<lambda>(inp, pos). length inp - pos)") auto

function scanQuoted :: "string \<Rightarrow> nat \<Rightarrow> nat" where
  "scanQuoted inp pos =
     (if pos < length inp \<and> inp ! pos \<noteq> CHR 0x22 then scanQuoted inp (pos + 1) else pos)"
  by pat_completeness auto
termination
  by (relation "measure (\<lambda>(inp, pos). length inp - pos)") auto

function scanArg :: "string \<Rightarrow> nat \<Rightarrow> nat" where
  "scanArg inp pos =
     (if pos < length inp \<and>
         \<not> (inp ! pos = CHR '' '' \<or> inp ! pos = CHR 0x09 \<or> inp ! pos = CHR ''&''
            \<or> inp ! pos = CHR ''|'' \<or> inp ! pos = CHR '')'')
      then scanArg inp (pos + 1) else pos)"
  by pat_completeness auto
termination
  by (relation "measure (\<lambda>(inp, pos). length inp - pos)") auto

declare skipWS.simps [simp del] scanQuoted.simps [simp del] scanArg.simps [simp del]
  digits.simps [simp del]

text \<open>Each function takes the input and the position and returns the value with the new position.\<close>

definition parseQuoted :: "string \<Rightarrow> nat \<Rightarrow> (string \<times> nat) result" where
  "parseQuoted inp pos0 =
     (let pos = pos0 + 1;
          start = pos;
          pos = scanQuoted inp pos
      in if pos \<ge> length inp then Err UnterminatedQuoted
         else case slice inp start pos of
                None \<Rightarrow> Panic
              | Some s \<Rightarrow> Ok (s, pos + 1))"

definition parseArg :: "string \<Rightarrow> nat \<Rightarrow> (string \<times> nat) result" where
  "parseArg inp pos0 =
     (let pos = skipWS inp pos0 in
      if pos \<ge> length inp then Err ExpectedArgument
      else case byte_at inp pos of
             None \<Rightarrow> Panic
           | Some c \<Rightarrow>
               if c = CHR 0x22 then parseQuoted inp pos
               else (let start = pos;
                         pos = scanArg inp pos
                     in if pos = start then Err (EmptyArgument pos)
                        else case slice inp start pos of
                               None \<Rightarrow> Panic
                             | Some s \<Rightarrow> Ok (s, pos)))"

definition parsePrimitive :: "string \<Rightarrow> nat \<Rightarrow> (Filter \<times> nat) result" where
  "parsePrimitive inp pos0 =
     (let pos = skipWS inp pos0 in
      if pos + 1 \<ge> length inp \<or> inp ! pos \<noteq> CHR ''~'' then Err (ExpectedTilde pos)
      else (let pos = pos + 1 in
            if pos \<ge> length inp then Err ExpectedTypeAfterTilde
            else case byte_at inp pos of
                   None \<Rightarrow> Panic
                 | Some kind \<Rightarrow>
                     (let pos = pos + 1;
                          pos = skipWS inp pos
                      in case parseArg inp pos of
                           Ok (arg, pos) \<Rightarrow>
                             if kind = CHR ''m'' then Ok (methodFilter arg, pos)
                             else if kind = CHR ''s'' then Ok (statusFilter arg, pos)
                             else if kind = CHR ''p'' then Ok (pathFilter arg, pos)
                             else if kind = CHR ''h'' then Ok (headerFilter arg, pos)
                             else if kind = CHR ''b'' then Ok (bodyFilter arg, pos)
                             else if kind = CHR ''u'' then Ok (upstreamFilter arg, pos)
                             else Err (UnknownFilterType kind)
                         | r \<Rightarrow> propagate r)))"

text \<open>
  The recursive descent. \<open>orLoop\<close> and \<open>andLoop\<close> are the \<open>for\<close> loops of \<open>parseOr\<close> and
  \<open>parseAnd\<close>, with the filter built so far. Every call passes on one unit of fuel less,
  which is the termination measure.
\<close>

function parseOr :: "nat \<Rightarrow> string \<Rightarrow> nat \<Rightarrow> (Filter \<times> nat) result"
  and orLoop :: "nat \<Rightarrow> string \<Rightarrow> Filter \<Rightarrow> nat \<Rightarrow> (Filter \<times> nat) result"
  and parseAnd :: "nat \<Rightarrow> string \<Rightarrow> nat \<Rightarrow> (Filter \<times> nat) result"
  and andLoop :: "nat \<Rightarrow> string \<Rightarrow> Filter \<Rightarrow> nat \<Rightarrow> (Filter \<times> nat) result"
  and parseNot :: "nat \<Rightarrow> string \<Rightarrow> nat \<Rightarrow> (Filter \<times> nat) result"
  and parseAtom :: "nat \<Rightarrow> string \<Rightarrow> nat \<Rightarrow> (Filter \<times> nat) result"
where
  "parseOr 0 inp pos = NoFuel"
| "parseOr (Suc n) inp pos =
     (case parseAnd n inp pos of
        Ok (left, pos1) \<Rightarrow> orLoop n inp left pos1
      | r \<Rightarrow> propagate r)"
| "orLoop 0 inp left pos0 = NoFuel"
| "orLoop (Suc n) inp left pos0 =
     (let pos = skipWS inp pos0 in
      if pos + 1 < length inp \<and> inp ! pos = CHR ''|'' then
        (case parseAnd n inp (pos + 1) of
           Ok (right, pos2) \<Rightarrow> orLoop n inp (\<lambda>f. left f \<or> right f) pos2
         | r \<Rightarrow> propagate r)
      else Ok (left, pos))"
| "parseAnd 0 inp pos = NoFuel"
| "parseAnd (Suc n) inp pos =
     (case parseNot n inp pos of
        Ok (left, pos1) \<Rightarrow> andLoop n inp left pos1
      | r \<Rightarrow> propagate r)"
| "andLoop 0 inp left pos0 = NoFuel"
| "andLoop (Suc n) inp left pos0 =
     (let pos = skipWS inp pos0 in
      if pos < length inp \<and> inp ! pos = CHR ''&'' then
        (case parseNot n inp (pos + 1) of
           Ok (right, pos2) \<Rightarrow> andLoop n inp (\<lambda>f. left f \<and> right f) pos2
         | r \<Rightarrow> propagate r)
      else Ok (left, pos))"
| "parseNot 0 inp pos0 = NoFuel"
| "parseNot (Suc n) inp pos0 =
     (let pos = skipWS inp pos0 in
      if pos < length inp \<and> inp ! pos = CHR ''!'' then
        (case parseAtom n inp (pos + 1) of
           Ok (inner, pos1) \<Rightarrow> Ok (\<lambda>f. \<not> inner f, pos1)
         | r \<Rightarrow> propagate r)
      else parseAtom n inp pos)"
| "parseAtom 0 inp pos0 = NoFuel"
| "parseAtom (Suc n) inp pos0 =
     (let pos = skipWS inp pos0 in
      if pos \<ge> length inp then Err UnexpectedEnd
      else case byte_at inp pos of
             None \<Rightarrow> Panic
           | Some c \<Rightarrow>
               if c = CHR ''('' then
                 (case parseOr n inp (pos + 1) of
                    Ok (inner, pos1) \<Rightarrow>
                      (let pos2 = skipWS inp pos1 in
                       if pos2 \<ge> length inp \<or> inp ! pos2 \<noteq> CHR '')'' then Err ExpectedClosingParen
                       else Ok (inner, pos2 + 1))
                  | r \<Rightarrow> propagate r)
               else parsePrimitive inp pos)"
  by pat_completeness auto
termination
  by (relation "measure (\<lambda>x. case x of
         Inl (Inl (n, _)) \<Rightarrow> n
       | Inl (Inr (Inl (n, _))) \<Rightarrow> n
       | Inl (Inr (Inr (n, _))) \<Rightarrow> n
       | Inr (Inl (n, _)) \<Rightarrow> n
       | Inr (Inr (Inl (n, _))) \<Rightarrow> n
       | Inr (Inr (Inr (n, _))) \<Rightarrow> n)") simp_all

text \<open>
  \<open>Parse\<close>. The fuel \<open>6 * len + 6\<close> is enough for every parse of the trimmed expression
  (lemma \<open>Parse_total\<close> below), and more fuel gives the same result
  (lemma \<open>parseOr_enough_fuel\<close>).
\<close>

definition Parse :: "string \<Rightarrow> Filter result" where
  "Parse expr0 =
     (let expr = TrimSpace expr0 in
      if expr = [] then Ok MatchAll
      else case parseOr (6 * length expr + 6) expr 0 of
             Ok (f, pos) \<Rightarrow>
               if pos < length expr then
                 (case slice expr pos (length expr) of
                    None \<Rightarrow> Panic
                  | Some rest \<Rightarrow> Err (UnexpectedToken pos rest))
               else Ok f
           | r \<Rightarrow> propagate r)"

text \<open>
  Two flows are the same up to header order when they differ at most in the order in which
  the entries of their request and response header maps are listed.
\<close>

definition unordered :: "'a Captured_scheme \<Rightarrow> 'a Captured_scheme \<times> (string \<times> string list) set" where
  "unordered c = (c\<lparr>Headers := []\<rparr>, set (Headers c))"

definition same_up_to_header_order :: "Flow \<Rightarrow> Flow \<Rightarrow> bool" where
  "same_up_to_header_order f g \<longleftrightarrow>
     map_option unordered (Request f) = map_option unordered (Request g) \<and>
     map_option unordered (Response f) = map_option unordered (Response g) \<and>
     f\<lparr>Request := None, Response := None\<rparr> = g\<lparr>Request := None, Response := None\<rparr>"

text \<open>A predicate that does not depend on the order of the header entries.\<close>

definition order_blind :: "Filter \<Rightarrow> bool" where
  "order_blind p \<longleftrightarrow> (\<forall>f g. same_up_to_header_order f g \<longrightarrow> p f = p g)"

text \<open>
  What a parse function started at \<open>pos\<close> may return: a predicate that is blind to header
  order, with a position between \<open>pos\<close> and the end of the input, or an error whose
  position, if it has one, lies within the input; never a panic, never a lack of fuel.
\<close>

definition good :: "string \<Rightarrow> nat \<Rightarrow> (Filter \<times> nat) result \<Rightarrow> bool" where
  "good inp pos r =
     (case r of
        Ok (f, pos') \<Rightarrow> pos \<le> pos' \<and> pos' \<le> length inp \<and> order_blind f
      | Err e \<Rightarrow> (case position e of Some p \<Rightarrow> p \<le> length inp | None \<Rightarrow> True)
      | Panic \<Rightarrow> False
      | NoFuel \<Rightarrow> False)"

definition good_arg :: "string \<Rightarrow> nat \<Rightarrow> (string \<times> nat) result \<Rightarrow> bool" where
  "good_arg inp pos r =
     (case r of
        Ok (s, pos') \<Rightarrow> pos \<le> pos' \<and> pos' \<le> length inp
      | Err e \<Rightarrow> (case position e of Some p \<Rightarrow> p \<le> length inp | None \<Rightarrow> True)
      | Panic \<Rightarrow> False
      | NoFuel \<Rightarrow> False)"

text \<open>The fuel \<open>n\<close> covers a call of rank \<open>c\<close> at position \<open>pos\<close>.\<close>

definition fits :: "nat \<Rightarrow> string \<Rightarrow> nat \<Rightarrow> nat \<Rightarrow> bool" where
  "fits n inp pos c \<longleftrightarrow> pos \<le> length inp \<and> 6 * (length inp - pos) + c \<le> n"

text \<open>One flow under two iteration orders of its request header map.\<close>

definition flow_with_headers :: "Header \<Rightarrow> Flow" where
  "flow_with_headers hs = fresh_flow\<lparr>Request := Some
     \<lparr>Headers = hs, Body = [], Proto = ''HTTP/1.1'', BodyTruncated = False,
      Method = ''POST'', URL = ''/x'', Path = ''/x'', Host = ''localhost''\<rparr>\<rparr>"

definition flow_headers_ab :: Flow where
  "flow_headers_ab =
     flow_with_headers [(''Content-Type'', [''application/json'']), (''Accept'', [''text/html''])]"

definition flow_headers_ba :: Flow where
  "flow_headers_ba =
     flow_with_headers [(''Accept'', [''text/html'']), (''Content-Type'', [''application/json''])]"

section \<open>FlowStore: ring and index (C3, C9, C10)\<close>

lemma ring_inv_New: "ring_inv (NewFlowStore c) []"
  by (auto simp: ring_inv_def NewFlowStore_def Let_def)

lemma index_inv_New: "index_inv h (NewFlowStore c) []"
  by (auto simp: index_inv_def NewFlowStore_def Let_def stored_def)

lemma Add_fields:
  "capacity (Add h f s) = capacity s"
  "head (Add h f s) = (head s + 1) mod capacity s"
  "count (Add h f s) = (if count s = capacity s then count s else count s + 1)"
  "flows (Add h f s) = (flows s)[head s := Some f]"
  by (auto simp: Add_def Let_def split: option.splits)

lemma mod_slot_neq:
  fixes j t c :: nat
  assumes "j < t" "t - j < c"
  shows "j mod c \<noteq> t mod c"
proof
  assume "j mod c = t mod c"
  then have "(t - j) mod c = 0"
    using assms(1) by (metis mod_eq_dvd_iff_nat less_imp_le_nat dvd_imp_mod_0)
  with assms show False by (simp add: mod_less)
qed

lemma ring_inv_Add:
  assumes "ring_inv s fs"
  shows "ring_inv (Add h f s) (fs @ [f])"
proof -
  let ?c = "capacity s" and ?t = "length fs"
  from assms have cap: "0 < ?c" and len: "length (flows s) = ?c"
    and hd: "head s = ?t mod ?c" and ct: "count s = min ?t ?c"
    and el: "\<And>j. j < ?t \<Longrightarrow> ?t - j \<le> ?c \<Longrightarrow> flows s ! (j mod ?c) = Some (fs ! j)"
    by (auto simp: ring_inv_def)
  have h': "head (Add h f s) = length (fs @ [f]) mod ?c"
    using cap by (simp add: Add_fields hd mod_Suc_eq)
  have c': "count (Add h f s) = min (length (fs @ [f])) ?c"
    using cap by (auto simp: Add_fields ct min_def)
  have e': "flows (Add h f s) ! (j mod ?c) = Some ((fs @ [f]) ! j)"
    if "j < length (fs @ [f])" "length (fs @ [f]) - j \<le> ?c" for j
  proof (cases "j = ?t")
    case True
    then show ?thesis using cap len by (simp add: Add_fields hd)
  next
    case False
    with that have lt: "j < ?t" and d: "?t - j < ?c" by auto
    then have "j mod ?c \<noteq> ?t mod ?c" by (rule mod_slot_neq)
    moreover have "flows s ! (j mod ?c) = Some (fs ! j)" using el lt d by simp
    ultimately show ?thesis using lt by (simp add: Add_fields hd nth_append)
  qed
  show ?thesis
    unfolding ring_inv_def using cap len h' c' e' by (simp add: Add_fields)
qed

lemma map_filter_Some: "(\<And>i. i \<in> set is \<Longrightarrow> g i = Some (k i)) \<Longrightarrow> List.map_filter g is = map k is"
  by (induction "is") (auto simp: List.map_filter_simps)

lemma mod_shift: fixes t c i :: nat assumes "c \<le> t" shows "(t mod c + i) mod c = (t - c + i) mod c"
proof -
  have "(t - c + i) mod c = (t - c + i + c) mod c" by simp
  also have "t - c + i + c = t + i" using assms by simp
  finally show ?thesis by (simp add: mod_add_left_eq)
qed

lemma mod_shift0: fixes t c :: nat assumes "c \<le> t" shows "(t - c) mod c = t mod c"
  using mod_shift [OF assms, of 0] by simp

lemma ring_inv_All:
  assumes "ring_inv s fs"
  shows "All s = stored s fs"
proof -
  let ?c = "capacity s" and ?t = "length fs"
  from assms have cap: "0 < ?c" and len: "length (flows s) = ?c"
    and hd: "head s = ?t mod ?c" and ct: "count s = min ?t ?c"
    and el: "\<And>j. j < ?t \<Longrightarrow> ?t - j \<le> ?c \<Longrightarrow> flows s ! (j mod ?c) = Some (fs ! j)"
    by (auto simp: ring_inv_def)
  show ?thesis
  proof (cases "?t < ?c")
    case True
    have "List.map_filter (\<lambda>i. flows s ! i) [0..<?t] = map (\<lambda>i. fs ! i) [0..<?t]"
    proof (intro map_filter_Some)
      fix i assume "i \<in> set [0..<?t]"
      then have "i < ?t" by simp
      then show "flows s ! i = Some (fs ! i)" using el [of i] True by simp
    qed
    then show ?thesis using True ct by (simp add: All_def stored_def map_nth)
  next
    case False
    then have ge: "?c \<le> ?t" by simp
    have "List.map_filter (\<lambda>i. flows s ! ((head s + i) mod ?c)) [0..<?c]
          = map (\<lambda>i. fs ! (?t - ?c + i)) [0..<?c]"
    proof (intro map_filter_Some)
      fix i assume "i \<in> set [0..<?c]"
      then have i: "i < ?c" by simp
      have "(head s + i) mod ?c = (?t - ?c + i) mod ?c"
        using ge by (simp add: hd mod_shift)
      moreover have "flows s ! ((?t - ?c + i) mod ?c) = Some (fs ! (?t - ?c + i))"
        using el [of "?t - ?c + i"] i ge by simp
      ultimately show "flows s ! ((head s + i) mod ?c) = Some (fs ! (?t - ?c + i))" by simp
    qed
    moreover have "map (\<lambda>i. fs ! (?t - ?c + i)) [0..<?c] = drop (?t - ?c) fs"
      using ge by (intro nth_equalityI) simp_all
    ultimately show ?thesis using False ct cap by (simp add: All_def stored_def)
  qed
qed

lemma index_Add:
  "index (Add h f s) =
     ((if count s = capacity s then
         (case flows s ! head s of Some old \<Rightarrow> (index s)(ID (h old) := None) | None \<Rightarrow> index s)
       else index s)(ID (h f) \<mapsto> f))"
  by (auto simp: Add_def Let_def split: option.splits)

lemma indexes_insert:
  assumes "indexes m g A" "inj_on g (insert f A)"
  shows "indexes (m(g f \<mapsto> f)) g (insert f A)"
  using assms unfolding indexes_def inj_on_def by (metis fun_upd_apply insert_iff option.inject)

lemma indexes_remove:
  assumes "indexes m g A" "inj_on g A" "x \<in> A"
  shows "indexes (m(g x := None)) g (A - {x})"
  using assms unfolding indexes_def inj_on_def
  by (metis Diff_iff fun_upd_apply insertCI option.distinct(1) singletonD)

lemma index_inv_indexes: "index_inv h s fs \<longleftrightarrow> indexes (index s) (\<lambda>p. ID (h p)) (set (stored s fs))"
  by (simp add: index_inv_def indexes_def)

lemma index_inv_Add:
  assumes r: "ring_inv s fs" and i: "index_inv h s fs" and d: "distinct (map (\<lambda>p. ID (h p)) (fs @ [f]))"
  shows "index_inv h (Add h f s) (fs @ [f])"
proof -
  let ?c = "capacity s" and ?t = "length fs" and ?g = "\<lambda>p. ID (h p)"
  from r have cap: "0 < ?c" and len: "length (flows s) = ?c"
    and hd: "head s = ?t mod ?c" and ct: "count s = min ?t ?c"
    and el: "\<And>j. j < ?t \<Longrightarrow> ?t - j \<le> ?c \<Longrightarrow> flows s ! (j mod ?c) = Some (fs ! j)"
    by (auto simp: ring_inv_def)
  from i have ix: "indexes (index s) ?g (set (drop (?t - ?c) fs))"
    by (simp add: index_inv_indexes stored_def)
  from d have inj: "inj_on ?g (set (fs @ [f]))" and dfs: "distinct (fs @ [f])"
    by (auto simp: distinct_map)
  show ?thesis
  proof (cases "?t < ?c")
    case True
    then have ne: "count s \<noteq> ?c" using ct by simp
    have "indexes ((index s)(?g f \<mapsto> f)) ?g (insert f (set fs))"
      using ix inj True by (intro indexes_insert) simp_all
    then show ?thesis
      using True ne by (simp add: index_inv_indexes stored_def index_Add Add_fields)
  next
    case False
    then have ge: "?c \<le> ?t" by simp
    then have eq: "count s = ?c" using ct by simp
    let ?old = "fs ! (?t - ?c)"
    have lt: "?t - ?c < ?t" using ge cap by simp
    have old: "flows s ! head s = Some ?old"
      using el [of "?t - ?c"] ge lt by (simp add: hd mod_shift0)
    have dr: "drop (?t - ?c) fs = ?old # drop (Suc ?t - ?c) fs"
      using lt ge by (simp add: Cons_nth_drop_Suc Suc_diff_le)
    have dd: "distinct (drop (?t - ?c) fs)" using dfs by simp
    have rest: "set (drop (?t - ?c) fs) - {?old} = set (drop (Suc ?t - ?c) fs)"
      using dd unfolding dr by auto
    have sub: "set (drop (Suc ?t - ?c) fs) \<subseteq> set fs" by (rule set_drop_subset)
    have "indexes ((index s)(?g ?old := None)) ?g (set (drop (?t - ?c) fs) - {?old})"
    proof (rule indexes_remove [OF ix])
      show "inj_on ?g (set (drop (?t - ?c) fs))"
        using inj by (rule inj_on_subset) (use set_drop_subset in force)
      show "?old \<in> set (drop (?t - ?c) fs)" unfolding dr by simp
    qed
    then have "indexes ((index s)(?g ?old := None)) ?g (set (drop (Suc ?t - ?c) fs))"
      by (simp only: rest)
    moreover have "inj_on ?g (insert f (set (drop (Suc ?t - ?c) fs)))"
      using inj by (rule inj_on_subset) (use sub in auto)
    ultimately have "indexes ((index s)(?g ?old := None, ?g f \<mapsto> f)) ?g
        (insert f (set (drop (Suc ?t - ?c) fs)))"
      by (rule indexes_insert)
    then show ?thesis
      using eq old cap by (simp add: index_inv_indexes stored_def index_Add Add_fields)
  qed
qed


lemma ring_inv_Clear: "ring_inv s fs \<Longrightarrow> ring_inv (Clear s) []"
  by (simp add: ring_inv_def Clear_def)

lemma index_inv_Clear: "index_inv h (Clear s) []"
  by (simp add: index_inv_def Clear_def stored_def)

lemma ring_inv_Update: "ring_inv (Update f t s) fs = ring_inv s fs"
  by (simp add: ring_inv_def Update_def)

lemma index_inv_Update: "index_inv h (Update f t s) fs = index_inv h s fs"
  by (simp add: index_inv_def Update_def stored_def)

lemma ring_inv_adds: "ring_inv s fs \<Longrightarrow> ring_inv (adds h gs s) (fs @ gs)"
  unfolding adds_def
proof (induction gs arbitrary: s fs)
  case Nil then show ?case by simp
next
  case (Cons g gs)
  from Cons.IH [OF ring_inv_Add [OF Cons.prems, of h g]] show ?case by simp
qed

lemma index_inv_adds:
  "ring_inv s fs \<Longrightarrow> index_inv h s fs \<Longrightarrow> distinct (map (\<lambda>p. ID (h p)) (fs @ gs))
   \<Longrightarrow> index_inv h (adds h gs s) (fs @ gs)"
  unfolding adds_def
proof (induction gs arbitrary: s fs)
  case Nil then show ?case by simp
next
  case (Cons g gs)
  have d: "distinct (map (\<lambda>p. ID (h p)) (fs @ [g]))" using Cons.prems(3) by auto
  have "index_inv h (fold (Add h) gs (Add h g s)) ((fs @ [g]) @ gs)"
    using Cons.prems(3)
    by (intro Cons.IH ring_inv_Add [OF Cons.prems(1)] index_inv_Add [OF Cons.prems(1,2) d]) simp
  then show ?case by simp
qed

lemma capacity_adds: "capacity (adds h gs s) = capacity s"
  unfolding adds_def by (induction gs arbitrary: s) (simp_all add: Add_fields)

text \<open>
  Claim C10. For a capacity argument \<open>c \<le> 0\<close>, \<open>NewFlowStore c\<close> is the very store that
  \<open>NewFlowStore 1000\<close> makes: capacity 1000, a ring of 1000 empty slots, nothing stored.
  Equal stores behave alike under every operation.
\<close>

theorem C10_NewFlowStore_default:
  "c \<le> 0 \<Longrightarrow> NewFlowStore c = NewFlowStore 1000 \<and> capacity (NewFlowStore c) = 1000
     \<and> length (flows (NewFlowStore c)) = 1000 \<and> Count (NewFlowStore c) = 0"
  by (simp add: NewFlowStore_def Count_def)

theorem C10_NewFlowStore_default_witness:
  "(-3::int) \<le> 0 \<and> NewFlowStore (-3) = NewFlowStore 1000 \<and> capacity (NewFlowStore (-3)) = 1000
   \<and> NewFlowStore 0 = NewFlowStore 1000"
proof -
  have a: "(-3::int) \<le> 0" and b: "(0::int) \<le> 0" by simp_all
  show ?thesis
    using a C10_NewFlowStore_default [OF a] C10_NewFlowStore_default [OF b] by blast
qed

lemma count_stored: "ring_inv s fs \<Longrightarrow> count s = length (stored s fs)"
  by (auto simp: ring_inv_def stored_def min_def)

text \<open>
  Claim C3. After more than \<open>N\<close> calls of \<open>Add\<close> on a fresh store of capacity \<open>N\<close>,
  \<open>Count\<close> is at most \<open>N\<close> (it is \<open>N\<close>) and \<open>All\<close> returns exactly the last \<open>N\<close> flows added,
  oldest first. When the flows carry pairwise different ids, every evicted flow (after
  \<open>N + 1\<close> insertions: the oldest one) is absent from \<open>All\<close>, and \<open>Get\<close> of its id is nil.
\<close>

theorem C3_ring_keeps_most_recent:
  assumes "N = capacity (NewFlowStore c)" and "s = adds h fs (NewFlowStore c)" and "N < length fs"
  shows "Count s \<le> N \<and> All s = drop (length fs - N) fs \<and> length (All s) = N \<and>
         (distinct (map (\<lambda>p. ID (h p)) fs) \<longrightarrow>
            (\<forall>p \<in> set (take (length fs - N) fs). p \<notin> set (All s) \<and> Get s (ID (h p)) = None))"
proof -
  have r: "ring_inv s fs"
    using ring_inv_adds [OF ring_inv_New, of h fs c] assms(2) by simp
  have cap: "capacity s = N" using assms(1,2) by (simp add: capacity_adds)
  have all: "All s = drop (length fs - N) fs"
    using ring_inv_All [OF r] cap by (simp add: stored_def)
  have cnt: "Count s = N" using count_stored [OF r] cap assms(3) by (simp add: Count_def stored_def)
  have gone: "p \<notin> set (All s) \<and> Get s (ID (h p)) = None"
    if d: "distinct (map (\<lambda>p. ID (h p)) fs)" and p: "p \<in> set (take (length fs - N) fs)" for p
  proof -
    have i: "index_inv h s fs"
      using index_inv_adds [OF ring_inv_New index_inv_New, of h fs c] d assms(2) by simp
    from d have "distinct fs" by (simp add: distinct_map)
    then have "distinct (take (length fs - N) fs @ drop (length fs - N) fs)" by simp
    then have notin: "p \<notin> set (drop (length fs - N) fs)" using p by (auto simp del: append_take_drop_id)
    have inj: "inj_on (\<lambda>p. ID (h p)) (set fs)" using d by (simp add: distinct_map)
    have pin: "p \<in> set fs" using p by (rule in_set_takeD)
    have "index s (ID (h p)) = None"
    proof (cases "index s (ID (h p))")
      case (Some q)
      then have q: "q \<in> set (drop (length fs - N) fs)" and "ID (h q) = ID (h p)"
        using i cap by (auto simp: index_inv_def stored_def)
      moreover have "q \<in> set fs" using q by (rule in_set_dropD)
      ultimately have "q = p" using inj pin by (auto simp: inj_on_def)
      with q notin show ?thesis by simp
    qed simp
    then show ?thesis using notin all by (simp add: Get_def)
  qed
  show ?thesis using all cnt gone assms(3) by simp
qed

theorem C3_ring_keeps_most_recent_witness:
  "capacity (NewFlowStore 2) < length [0, 1, 2::nat] \<and>
   Count (adds demo_heap [0, 1, 2] (NewFlowStore 2)) \<le> 2 \<and>
   All (adds demo_heap [0, 1, 2] (NewFlowStore 2)) = [1, 2] \<and>
   distinct (map (\<lambda>p. ID (demo_heap p)) [0, 1, 2]) \<and>
   0 \<notin> set (All (adds demo_heap [0, 1, 2] (NewFlowStore 2))) \<and>
   Get (adds demo_heap [0, 1, 2] (NewFlowStore 2)) (ID (demo_heap 0)) = None"
proof -
  have c: "capacity (NewFlowStore 2) = 2" by (simp add: NewFlowStore_def)
  have d: "distinct (map (\<lambda>p. ID (demo_heap p)) [0, 1, 2])"
    by (simp add: demo_heap_def blank_flow_def eval_nat_numeral)
  show ?thesis
    using C3_ring_keeps_most_recent [of 2 2 "adds demo_heap [0, 1, 2] (NewFlowStore 2)" demo_heap "[0, 1, 2]"] c d
    by simp
qed

lemma added_append: "added (ops @ ops') = added ops @ added ops'"
  by (induction ops rule: added.induct) simp_all

lemma run_store_snoc: "run_store h (ops @ [x]) s = apply_store_op h x (run_store h ops s)"
  by (simp add: run_store_def)

lemma run_store_inv:
  assumes "distinct (map (\<lambda>p. ID (h p)) (added ops))"
  shows "\<exists>fs pre. added ops = pre @ fs \<and> ring_inv (run_store h ops (NewFlowStore c)) fs
            \<and> index_inv h (run_store h ops (NewFlowStore c)) fs"
  using assms
proof (induction ops rule: rev_induct)
  case Nil
  show ?case by (simp add: run_store_def ring_inv_New index_inv_New)
next
  case (snoc x ops)
  let ?s = "run_store h ops (NewFlowStore c)"
  from snoc.prems have "distinct (map (\<lambda>p. ID (h p)) (added ops))"
    by (simp add: added_append)
  with snoc.IH obtain fs pre where a: "added ops = pre @ fs"
    and r: "ring_inv ?s fs" and i: "index_inv h ?s fs" by blast
  show ?case
  proof (cases x)
    case (OpAdd f)
    have d: "distinct (map (\<lambda>p. ID (h p)) (fs @ [f]))"
      using snoc.prems a OpAdd by (simp add: added_append)
    have "added (ops @ [x]) = pre @ (fs @ [f])" using a OpAdd by (simp add: added_append)
    moreover have "ring_inv (Add h f ?s) (fs @ [f])" using r by (rule ring_inv_Add)
    moreover have "index_inv h (Add h f ?s) (fs @ [f])" using r i d by (rule index_inv_Add)
    ultimately show ?thesis unfolding run_store_snoc OpAdd apply_store_op.simps by blast
  next
    case (OpUpdate f t)
    have "added (ops @ [x]) = pre @ fs" using a OpUpdate by (simp add: added_append)
    then show ?thesis
      unfolding run_store_snoc OpUpdate apply_store_op.simps
      using r i by (auto simp: ring_inv_Update index_inv_Update)
  next
    case OpClear
    have "added (ops @ [x]) = added ops @ []" using OpClear by (simp add: added_append)
    moreover have "ring_inv (Clear ?s) []" using r by (rule ring_inv_Clear)
    moreover have "index_inv h (Clear ?s) []" by (rule index_inv_Clear)
    ultimately show ?thesis unfolding run_store_snoc OpClear apply_store_op.simps by blast
  qed
qed

text \<open>
  Claim C9. After any sequence of \<open>Add\<close>, \<open>Update\<close> and \<open>Clear\<close> on a fresh store, where the
  flows added carry pairwise different ids: \<open>Count\<close> is the number of flows \<open>All\<close> returns,
  every flow in \<open>All\<close> is what \<open>Get\<close> returns for its id, and \<open>Get\<close> is nil for every id that
  no stored flow carries.
\<close>

theorem C9_ring_and_index_agree:
  assumes "s = run_store h ops (NewFlowStore c)"
    and "distinct (map (\<lambda>p. ID (h p)) (added ops))"
  shows "Count s = length (All s) \<and>
         (\<forall>p \<in> set (All s). Get s (ID (h p)) = Some p) \<and>
         (\<forall>k. k \<notin> (\<lambda>p. ID (h p)) ` set (All s) \<longrightarrow> Get s k = None)"
proof -
  from run_store_inv [OF assms(2), of c] assms(1)
  obtain fs where r: "ring_inv s fs" and i: "index_inv h s fs" by blast
  have all: "All s = stored s fs" using r by (rule ring_inv_All)
  have "Count s = length (All s)" using count_stored [OF r] all by (simp add: Count_def)
  moreover have "Get s (ID (h p)) = Some p" if "p \<in> set (All s)" for p
    using i that all by (simp add: index_inv_def Get_def)
  moreover have "Get s k = None" if "k \<notin> (\<lambda>p. ID (h p)) ` set (All s)" for k
  proof (cases "index s k")
    case (Some q)
    then have "q \<in> set (All s)" "ID (h q) = k" using i all by (auto simp: index_inv_def)
    with that show ?thesis by auto
  qed (simp add: Get_def)
  ultimately show ?thesis by blast
qed

theorem C9_ring_and_index_agree_witness:
  "distinct (map (\<lambda>p. ID (demo_heap p)) (added demo_ops)) \<and>
   All (run_store demo_heap demo_ops (NewFlowStore 2)) = [4, 5] \<and>
   Count (run_store demo_heap demo_ops (NewFlowStore 2)) = 2 \<and>
   Get (run_store demo_heap demo_ops (NewFlowStore 2)) (ID (demo_heap 4)) = Some 4 \<and>
   Get (run_store demo_heap demo_ops (NewFlowStore 2)) (ID (demo_heap 5)) = Some 5 \<and>
   Get (run_store demo_heap demo_ops (NewFlowStore 2)) (ID (demo_heap 0)) = None \<and>
   Get (run_store demo_heap demo_ops (NewFlowStore 2)) (ID (demo_heap 3)) = None"
proof -
  let ?s = "run_store demo_heap demo_ops (NewFlowStore 2)"
  have d: "distinct (map (\<lambda>p. ID (demo_heap p)) (added demo_ops))"
    by (simp add: demo_ops_def demo_heap_def blank_flow_def eval_nat_numeral)
  have a: "All ?s = [4, 5]"
    by (simp add: demo_ops_def run_store_def NewFlowStore_def Add_def Update_def Clear_def All_def
        Let_def List.map_filter_simps eval_nat_numeral broadcast_def)
  have k0: "ID (demo_heap 0) \<notin> (\<lambda>p. ID (demo_heap p)) ` set (All ?s)"
    and k3: "ID (demo_heap 3) \<notin> (\<lambda>p. ID (demo_heap p)) ` set (All ?s)"
    unfolding a by (simp_all add: demo_heap_def blank_flow_def eval_nat_numeral)
  from C9_ring_and_index_agree [OF refl d, of 2] a k0 k3 d show ?thesis by simp
qed


section \<open>Router\<close>





text \<open>Both insertion sorters do what \<open>sort.Slice\<close> promises.\<close>

lemma place_count: "count_list (place lt x ys) z = count_list (x # ys) z"
  by (induction ys) auto

lemma place_set: "set (place lt x ys) = insert x (set ys)"
  by (induction ys) auto

lemma place_sorted:
  "sorted_wrt (\<lambda>a b. \<not> longer b a) ys \<Longrightarrow> sorted_wrt (\<lambda>a b. \<not> longer b a) (place longer x ys)"
  by (induction ys) (auto simp: place_set longer_def)


lemma reversing_sort_sorts: "sorts reversing_sort"
proof -
  have c: "count_list (fold (place longer) xs acc) x = count_list xs x + count_list acc x" for xs acc x
    by (induction xs arbitrary: acc) (simp_all add: place_count)
  have s: "sorted_wrt (\<lambda>a b. \<not> longer b a) acc \<Longrightarrow>
           sorted_wrt (\<lambda>a b. \<not> longer b a) (fold (place longer) xs acc)" for xs acc
    by (induction xs arbitrary: acc) (simp_all add: place_sorted)
  show ?thesis by (simp add: sorts_def reversing_sort_def c s)
qed



text \<open>With a sorter that keeps equal elements in their order, it is the first.\<close>

lemma keeping_example:
  "map_option Name
     (case NewRouter demo_parse keeping_sort [up ''first'' ''/api'', up ''second'' ''/api''] of
        Inl err \<Rightarrow> None
      | Inr r \<Rightarrow> Match r (get_request ''/api/ping'')) = Some ''first''"
  by (simp add: NewRouter_def keeping_sort_def up_def demo_parse_def Match_def get_request_def
      longer_def HasPrefix_def)


section \<open>Bounded body capture (C2)\<close>

lemma sint_succ_in_range:
  fixes m :: int64
  assumes "0 \<le> sint m" "sint m < 2 ^ 63 - 1"
  shows "sint (m + 1) = sint m + 1"
proof -
  have "sint (m + 1) = signed_take_bit 63 (sint m + 1)"
    by (simp add: sint_word_ariths)
  also have "\<dots> = sint m + 1"
    using assms by (intro signed_take_bit_int_eq_self) auto
  finally show ?thesis .
qed

lemma readLimited_in_range:
  assumes "0 \<le> sint maxBytes" "sint maxBytes < 2 ^ 63 - 1" "fails r = None"
  shows "fst (readLimited r maxBytes) =
           Returns (take (nat (sint maxBytes)) (content r), sint maxBytes < int (length (content r)), None)"
proof -
  have l: "sint (maxBytes + 1) = sint maxBytes + 1" using assms(1,2) by (rule sint_succ_in_range)
  show ?thesis
  proof (cases "sint maxBytes < int (length (content r))")
    case True
    then show ?thesis using assms l
      by (simp add: readLimited_def ReadAll_LimitReader_def Let_def min_def nat_add_distrib)
  next
    case False
    then show ?thesis using assms l
      by (simp add: readLimited_def ReadAll_LimitReader_def Let_def)
  qed
qed

lemma captureRequestBody_in_range:
  assumes "0 \<le> sint maxBytes" "sint maxBytes < 2 ^ 63 - 1"
    and "req_Body r = Stream rd" "fails rd = None" "Request flow = Some cr"
  shows "captured_of (captureRequestBody flow r maxBytes) =
           Some (take (nat (sint maxBytes)) (content rd), sint maxBytes < int (length (content rd)))"
proof -
  obtain res rd' where rl: "readLimited rd maxBytes = (res, rd')" by (cases "readLimited rd maxBytes")
  with readLimited_in_range [OF assms(1,2,4)]
  have "res = Returns (take (nat (sint maxBytes)) (content rd), sint maxBytes < int (length (content rd)), None)"
    by simp
  then show ?thesis using assms(3,5) rl
    by (simp add: captureRequestBody_def captured_of_def Let_def)
qed

lemma captured_size_in_range:
  assumes "0 \<le> sint maxBytes" "sint maxBytes < 2 ^ 63 - 1"
    and "req_Body r = Stream rd" "fails rd = None" "Request flow = Some cr"
    and "captured_of (captureRequestBody flow r maxBytes) = Some (b, t)"
  shows "int (length b) = min (int (length (content rd))) (sint maxBytes)
         \<and> (t \<longleftrightarrow> int (length (content rd)) > sint maxBytes)"
  using captureRequestBody_in_range [OF assms(1-5)] assms(1,6) by (auto simp: min_def)

text \<open>
  Claim C2. The captured request body has size \<open>min n maxBodySize\<close> and the truncation
  flag is set exactly when \<open>n > maxBodySize\<close>. The three lemmas above prove this for every
  limit from 0 up to, but not including, the largest \<open>int64\<close>. At the largest \<open>int64\<close> the sum
  \<open>maxBytes + 1\<close> wraps to the smallest one, the limited reader delivers nothing, and a
  one-byte body is captured as the empty body with the flag unset.
\<close>

theorem C2_capture_overflows_at_max_int64:
  "captured_of (captureRequestBody fresh_flow (request_with_body ''x'') 9223372036854775807)
     = Some ([], False)
   \<and> length ''x'' = 1 \<and> sint (9223372036854775807 :: int64) = 9223372036854775807"
  by (simp add: captured_of_def captureRequestBody_def request_with_body_def fresh_flow_def
      blank_flow_def readLimited_def ReadAll_LimitReader_def bytes_NewReader_def Let_def)

text \<open>A negative limit makes the slice expression \<open>data[:maxBytes]\<close> panic.\<close>

lemma capture_panics_negative_limit:
  "captureRequestBody fresh_flow (request_with_body ''x'') (-1) = Panics"
  by (simp add: captureRequestBody_def request_with_body_def fresh_flow_def
      blank_flow_def readLimited_def ReadAll_LimitReader_def bytes_NewReader_def Let_def)

lemma capture_boundary_examples:
  "captured_of (captureRequestBody fresh_flow (request_with_body ''ABCDEFGHIJ'') 10) = Some (''ABCDEFGHIJ'', False)"
  "captured_of (captureRequestBody fresh_flow (request_with_body ''ABCDEFGHIJK'') 10) = Some (''ABCDEFGHIJ'', True)"
  by (simp_all add: captured_of_def captureRequestBody_def request_with_body_def fresh_flow_def
      blank_flow_def readLimited_def ReadAll_LimitReader_def bytes_NewReader_def Let_def)

section \<open>Response capture failure (C6)\<close>

lemma fold_keeps:
  assumes "\<And>a f. a \<in> set as \<Longrightarrow> sel (g a f) = sel f"
  shows "sel (fold g as f) = sel f"
  using assms by (induction as arbitrary: f) simp_all

lemma FireRequest_keeps: "\<forall>a \<in> set as. keeps sel a \<Longrightarrow> sel (FireRequest as f) = sel f"
  unfolding FireRequest_def by (rule fold_keeps) (auto simp: keeps_def split: option.splits)

lemma FireResponse_keeps: "\<forall>a \<in> set as. keeps sel a \<Longrightarrow> sel (FireResponse as f) = sel f"
  unfolding FireResponse_def by (rule fold_keeps) (auto simp: keeps_def split: option.splits)

lemma FireComplete_keeps: "\<forall>a \<in> set as. keeps sel a \<Longrightarrow> sel (FireComplete as f) = sel f"
  unfolding FireComplete_def by (rule fold_keeps) (auto simp: keeps_def split: option.splits)

lemma FireError_keeps: "\<forall>a \<in> set as. keeps sel a \<Longrightarrow> sel (FireError as f err) = sel f"
  unfolding FireError_def by (rule fold_keeps) (auto simp: keeps_def split: option.splits)

lemma keeps_log_addon: "keeps sel log_addon"
  by (simp add: keeps_def log_addon_def)

text \<open>
  A failed read leaves the stream with nothing to deliver and closed, and \<open>readLimited\<close>
  drops the bytes it had read.
\<close>

lemma readLimited_failure_drains:
  assumes "readLimited rd m = (Returns (b, t, Some err), rd')"
  shows "content rd' = [] \<and> closed rd' \<and> b = []"
  using assms
  by (auto simp: readLimited_def ReadAll_LimitReader_def Let_def split: if_splits option.splits)

text \<open>
  What \<open>modifyResponse\<close> does when the read of the response body fails (with hooks that leave
  the flow's state and captured response alone): it returns the nil error, the flow is
  complete with an empty captured body and the truncated flag set, the \<open>complete\<close> event is
  published, and the live response goes back to the reverse proxy with its body stream as
  the failed read left it.
\<close>

lemma response_capture_failure:
  assumes ctx: "req_ctx (resp_Request resp) = Some p"
    and body: "resp_Body resp = Some rd"
    and fail: "readLimited rd (MaxBodySize (opts e)) = (Returns (b, t, Some err), rd')"
    and obs: "\<forall>a \<in> set (addons e). keeps State a \<and> keeps Response a"
  shows "\<exists>w'. modifyResponse e t1 t2 resp w = Returns (w', resp\<lparr>resp_Body := Some rd'\<rparr>, None)
           \<and> State (heap w' p) = FlowStateComplete
           \<and> store w' = Update p FlowEventComplete (store w)
           \<and> (\<exists>c. Response (heap w' p) = Some c \<and> Body c = [] \<and> BodyTruncated c
                  \<and> StatusCode c = resp_StatusCode resp \<and> Headers c = resp_Header resp)"
proof -
  have k1: "\<forall>a \<in> set (addons e). keeps State a" and k2: "\<forall>a \<in> set (addons e). keeps Response a"
    using obs by auto
  show ?thesis
    using ctx body fail
    by (simp add: modifyResponse_def captureResponseBody_def Let_def
        FireComplete_keeps [OF k1] FireResponse_keeps [OF k1]
        FireComplete_keeps [OF k2] FireResponse_keeps [OF k2])
qed

text \<open>
  Claim C6 says that after a failed capture read the response body continues to be
  forwarded. It holds for the flow and for the returned error, and fails for the body: an
  upstream that delivers \<open>abc\<close> and then breaks off leaves the reverse proxy a stream that is
  closed and delivers nothing, so none of the three bytes reaches the client. On the
  path without a read error the live body is replaced by a reader over the bytes read.
\<close>

theorem C6_failed_capture_forwards_nothing:
  "content (the (resp_Body (response_with_body ''abc'' (Some ''unexpected EOF'')))) = ''abc''
   \<and> (\<exists>w' resp'.
         modifyResponse logging_engine 5 6 (response_with_body ''abc'' (Some ''unexpected EOF''))
           one_flow_world = Returns (w', resp', None)
         \<and> resp_Body resp' = Some \<lparr>content = [], fails = Some ''unexpected EOF'', closed = True\<rparr>
         \<and> State (heap w' 0) = FlowStateComplete
         \<and> (\<exists>c. Response (heap w' 0) = Some c \<and> Body c = [] \<and> BodyTruncated c))"
proof -
  let ?resp = "response_with_body ''abc'' (Some ''unexpected EOF'')"
  let ?rd = "\<lparr>content = ''abc'', fails = Some ''unexpected EOF'', closed = False\<rparr>"
  let ?rd' = "\<lparr>content = [], fails = Some ''unexpected EOF'', closed = True\<rparr>"
  have ctx: "req_ctx (resp_Request ?resp) = Some 0"
    by (simp add: response_with_body_def with_flow_def)
  have body: "resp_Body ?resp = Some ?rd" by (simp add: response_with_body_def)
  have fail: "readLimited ?rd (MaxBodySize (opts logging_engine)) = (Returns ([], False, Some ''unexpected EOF''), ?rd')"
    by (simp add: readLimited_def ReadAll_LimitReader_def logging_engine_def plain_engine_def Let_def)
  have obs: "\<forall>a \<in> set (addons logging_engine). keeps State a \<and> keeps Response a"
    by (simp add: logging_engine_def plain_engine_def keeps_log_addon)
  from response_capture_failure [OF ctx body fail obs, of 5 6 one_flow_world]
  obtain w' where w: "modifyResponse logging_engine 5 6 ?resp one_flow_world
        = Returns (w', ?resp\<lparr>resp_Body := Some ?rd'\<rparr>, None)"
    "State (heap w' 0) = FlowStateComplete"
    "\<exists>c. Response (heap w' 0) = Some c \<and> Body c = [] \<and> BodyTruncated c"
    by blast
  have "resp_Body (?resp\<lparr>resp_Body := Some ?rd'\<rparr>) = Some ?rd'" by simp
  with w have "\<exists>w' resp'. modifyResponse logging_engine 5 6 ?resp one_flow_world = Returns (w', resp', None)
         \<and> resp_Body resp' = Some ?rd'
         \<and> State (heap w' 0) = FlowStateComplete
         \<and> (\<exists>c. Response (heap w' 0) = Some c \<and> Body c = [] \<and> BodyTruncated c)"
    by blast
  moreover have "content (the (resp_Body ?resp)) = ''abc''" by (simp add: response_with_body_def)
  ultimately show ?thesis by blast
qed

text \<open>The path without a read error hands the reverse proxy a reader over the bytes read.\<close>

lemma capture_success_replaces_body:
  "\<exists>w' resp'.
     modifyResponse logging_engine 5 6 (response_with_body ''abc'' None) one_flow_world
       = Returns (w', resp', None)
     \<and> resp_Body resp' = Some (bytes_NewReader ''abc'')"
  by (simp add: modifyResponse_def captureResponseBody_def response_with_body_def with_flow_def
      readLimited_def ReadAll_LimitReader_def logging_engine_def plain_engine_def Let_def
      request_with_body_def)

section \<open>Flow lifecycle (C4)\<close>


lemma flow_step_target:
  assumes "\<forall>a \<in> set (addons e). keeps State a" and "flow_step e p x w = Returns w'"
  shows "State (heap w' p) = target x"
proof (cases x)
  case (DoResponse t1 t2 resp)
  then show ?thesis
    using assms(2)
    by (auto simp: modifyResponse_def with_flow_def Let_def
        FireComplete_keeps [OF assms(1)] FireResponse_keeps [OF assms(1)]
        split: outcome.splits option.splits prod.splits)
next
  case (DoUpstreamError t err)
  then show ?thesis
    using assms(2)
    by (auto simp: errorHandler_def with_flow_def Let_def FireError_keeps [OF assms(1)])
qed (use assms(2) in \<open>auto simp: Intercept_def Resume_def Kill_def Let_def\<close>)

lemma states_after_targets:
  assumes "\<forall>a \<in> set (addons e). keeps State a"
  shows "\<exists>n. states_after e p xs w = take n (map target xs)"
proof (induction xs arbitrary: w)
  case Nil
  show ?case by simp
next
  case (Cons x xs)
  show ?case
  proof (cases "flow_step e p x w")
    case Panics
    then have "states_after e p (x # xs) w = take 0 (map target (x # xs))" by simp
    then show ?thesis by blast
  next
    case (Returns w')
    from Cons.IH [of w'] obtain n where "states_after e p xs w' = take n (map target xs)" by blast
    then have "states_after e p (x # xs) w = take (Suc n) (map target (x # xs))"
      using Returns flow_step_target [OF assms Returns] by simp
    then show ?thesis by blast
  qed
qed

lemma steps_by_take: "steps_by R tr \<Longrightarrow> steps_by R (take n tr)"
proof (induction tr arbitrary: n)
  case Nil
  show ?case by simp
next
  case (Cons a tr)
  show ?case
  proof (cases n)
    case 0
    then show ?thesis by simp
  next
    case (Suc m)
    show ?thesis
    proof (cases tr)
      case Nil
      then show ?thesis using Suc by simp
    next
      case (Cons b rest)
      have ih: "steps_by R (take m (b # rest))" using Cons.IH Cons.prems Cons by simp
      show ?thesis
      proof (cases m)
        case 0
        then show ?thesis using Suc Cons by simp
      next
        case (Suc k)
        then show ?thesis using ih Cons.prems Cons \<open>n = Suc m\<close> by simp
      qed
    qed
  qed
qed



section \<open>Replay (C5)\<close>

lemma index_Add':
  "index (Add h f s) (ID (h f)) = Some f"
  by (auto simp: Add_def Let_def split: option.splits)

lemma index_Update: "index (Update p t s) = index s"
  by (simp add: Update_def)

lemma readLimited_no_panic: "0 \<le> sint m \<Longrightarrow> fst (readLimited r m) \<noteq> Panics"
  by (auto simp: readLimited_def Let_def split: prod.splits sum.splits)

lemma captureResponseBody_effect:
  assumes "0 \<le> sint m"
  shows "\<exists>f' resp' err. captureResponseBody f resp m = Returns (f', resp', err)
           \<and> ID f' = ID f \<and> Request f' = Request f \<and> Tags f' = Tags f"
proof (cases "resp_Body resp")
  case None
  then show ?thesis by (simp add: captureResponseBody_def Let_def)
next
  case (Some rd)
  obtain res rd' where rl: "readLimited rd m = (res, rd')" by (cases "readLimited rd m")
  with readLimited_no_panic [OF assms, of rd] obtain b t err where "res = Returns (b, t, err)"
    by (cases res) auto
  then show ?thesis using Some rl
    by (cases err) (simp_all add: captureResponseBody_def Let_def)
qed

lemma modifyResponse_effect:
  assumes ctx: "req_ctx (resp_Request resp) = Some p"
    and m: "0 \<le> sint (MaxBodySize (opts e))"
    and obs: "\<forall>a \<in> set (addons e). keeps ID a \<and> keeps Request a \<and> keeps Tags a"
  shows "\<exists>w' resp'. modifyResponse e t1 t2 resp w = Returns (w', resp', None)
           \<and> (\<forall>q. q \<noteq> p \<longrightarrow> heap w' q = heap w q) \<and> index (store w') = index (store w)
           \<and> ID (heap w' p) = ID (heap w p) \<and> Request (heap w' p) = Request (heap w p)
           \<and> Tags (heap w' p) = Tags (heap w p)"
proof -
  have k1: "\<forall>a \<in> set (addons e). keeps ID a" and k2: "\<forall>a \<in> set (addons e). keeps Request a"
    and k3: "\<forall>a \<in> set (addons e). keeps Tags a" using obs by auto
  let ?f1 = "(heap w p)\<lparr>Timestamps := (Timestamps (heap w p))\<lparr>ResponseStart := t1\<rparr>\<rparr>"
  from captureResponseBody_effect [OF m, of ?f1 resp]
  obtain f2 resp' err where c: "captureResponseBody ?f1 resp (MaxBodySize (opts e)) = Returns (f2, resp', err)"
    and i: "ID f2 = ID (heap w p)" "Request f2 = Request (heap w p)" "Tags f2 = Tags (heap w p)"
    by auto
  show ?thesis
    using ctx c i
    by (cases err)
      (simp_all add: modifyResponse_def Let_def index_Update
        FireComplete_keeps [OF k1] FireResponse_keeps [OF k1]
        FireComplete_keeps [OF k2] FireResponse_keeps [OF k2]
        FireComplete_keeps [OF k3] FireResponse_keeps [OF k3])
qed

lemma errorHandler_effect:
  assumes ctx: "req_ctx r = Some p"
    and obs: "\<forall>a \<in> set (addons e). keeps ID a \<and> keeps Request a \<and> keeps Tags a"
  shows "(\<forall>q. q \<noteq> p \<longrightarrow> heap (fst (errorHandler e t r err w)) q = heap w q)
           \<and> index (store (fst (errorHandler e t r err w))) = index (store w)
           \<and> ID (heap (fst (errorHandler e t r err w)) p) = ID (heap w p)
           \<and> Request (heap (fst (errorHandler e t r err w)) p) = Request (heap w p)
           \<and> Tags (heap (fst (errorHandler e t r err w)) p) = Tags (heap w p)"
proof -
  have k1: "\<forall>a \<in> set (addons e). keeps ID a" and k2: "\<forall>a \<in> set (addons e). keeps Request a"
    and k3: "\<forall>a \<in> set (addons e). keeps Tags a" using obs by auto
  show ?thesis using ctx
    by (simp add: errorHandler_def Let_def index_Update
        FireError_keeps [OF k1] FireError_keeps [OF k2] FireError_keeps [OF k3])
qed

lemma proxy_ServeHTTP_effect:
  assumes ctx: "req_ctx req = Some p"
    and m: "0 \<le> sint (MaxBodySize (opts e))"
    and obs: "\<forall>a \<in> set (addons e). keeps ID a \<and> keeps Request a \<and> keeps Tags a"
  shows "\<exists>w'. proxy_ServeHTTP e t1 t2 rt req w = Returns w'
           \<and> (\<forall>q. q \<noteq> p \<longrightarrow> heap w' q = heap w q) \<and> index (store w') = index (store w)
           \<and> ID (heap w' p) = ID (heap w p) \<and> Request (heap w' p) = Request (heap w p)
           \<and> Tags (heap w' p) = Tags (heap w p)"
proof (cases rt)
  case (Fails err)
  from errorHandler_effect [OF ctx obs, of t2 err w] show ?thesis
    using Fails by (auto simp: proxy_ServeHTTP_def)
next
  case (Responds resp)
  have "req_ctx (resp_Request (resp\<lparr>resp_Request := req\<rparr>)) = Some p" using ctx by simp
  from modifyResponse_effect [OF this m obs, of t1 t2 w] show ?thesis
    using Responds by (auto simp: proxy_ServeHTTP_def)
qed

lemma cloneRequest_id: "cloneRequest cr = cr"
  by (simp add: cloneRequest_def)

text \<open>
  Claim C5. For a stored flow whose captured request can be rebuilt and routed to a
  configured upstream (with a non-negative body limit, an id from \<open>uuid.New\<close> that is not in
  use, and hooks that leave id, request and tags alone), \<open>Replay\<close> returns a new flow: another
  pointer and another id, its captured request equal to the original's in every field, its
  tags containing \<open>replay\<close> and \<open>replay:<origin-id>\<close>.
\<close>

theorem C5_replay_clones_request:
  assumes orig: "Get (store w) flowID = Some original"
    and cr: "Request (heap w original) = Some cr"
    and alloc: "original < next_ptr w"
    and fresh: "Get (store w) uuid = None"
    and rebuild: "rebuildRequest lib cr = Inr req"
    and route: "Match (router e) req = Some upstream"
    and conf: "Name upstream \<in> set (proxies e)"
    and m: "0 \<le> sint (MaxBodySize (opts e))"
    and obs: "\<forall>a \<in> set (addons e). keeps ID a \<and> keeps Request a \<and> keeps Tags a"
  shows "\<exists>w' p. Replay lib e uuid now t1 t2 rt flowID w = Returns (w', Inr (Some p))
           \<and> p \<noteq> original \<and> ID (heap w' p) = uuid \<and> uuid \<noteq> flowID
           \<and> Request (heap w' p) = Some cr \<and> Request (heap w' original) = Some cr
           \<and> ''replay'' \<in> set (Tags (heap w' p)) \<and> ''replay:'' @ flowID \<in> set (Tags (heap w' p))"
proof -
  let ?flow2 = "(newFlow uuid now req upstream)
      \<lparr>Tags := Tags (newFlow uuid now req upstream) @ [''replay'', ''replay:'' @ flowID],
       Request := Some (cloneRequest cr)\<rparr>"
  let ?p = "next_ptr w"
  let ?w1 = "w\<lparr>heap := (heap w)(?p := ?flow2), next_ptr := ?p + 1\<rparr>"
  let ?w2 = "?w1\<lparr>store := Add (heap ?w1) ?p (store ?w1)\<rparr>"
  let ?req1 = "req\<lparr>req_ctx := Some ?p\<rparr>"
  have ctx: "req_ctx ?req1 = Some ?p" by simp
  from proxy_ServeHTTP_effect [OF ctx m obs, of t1 t2 rt ?w2]
  obtain w3 where run: "proxy_ServeHTTP e t1 t2 rt ?req1 ?w2 = Returns w3"
    and hp: "\<forall>q. q \<noteq> ?p \<longrightarrow> heap w3 q = heap ?w2 q" and ix: "index (store w3) = index (store ?w2)"
    and id: "ID (heap w3 ?p) = ID (heap ?w2 ?p)" and rq: "Request (heap w3 ?p) = Request (heap ?w2 ?p)"
    and tg: "Tags (heap w3 ?p) = Tags (heap ?w2 ?p)" by blast
  have ne: "?p \<noteq> original" using alloc by simp
  have id': "ID (heap w3 ?p) = uuid" using id by (simp add: newFlow_def)
  have got: "Get (store w3) (ID (heap w3 ?p)) = Some ?p"
    unfolding Get_def ix id' using index_Add' [of "heap ?w1" ?p "store ?w1"]
    by (simp add: newFlow_def)
  have rep: "Replay lib e uuid now t1 t2 rt flowID w = Returns (w3, Inr (Some ?p))"
    using orig cr rebuild route conf run got
    by (simp add: Replay_def Let_def)
  have "uuid \<noteq> flowID" using orig fresh by auto
  moreover have "Request (heap w3 ?p) = Some cr" using rq by (simp add: cloneRequest_id)
  moreover have "Request (heap w3 original) = Some cr" using hp ne cr by simp
  moreover have "''replay'' \<in> set (Tags (heap w3 ?p))" "''replay:'' @ flowID \<in> set (Tags (heap w3 ?p))"
    using tg by (simp_all add: newFlow_def)
  ultimately show ?thesis using rep ne id' by blast
qed


theorem C5_replay_clones_request_witness:
  "Get (store one_flow_world) ''id-1'' = Some 0
   \<and> Get (store one_flow_world) ''id-2'' = None
   \<and> (\<exists>cr req. Request (heap one_flow_world 0) = Some cr \<and> rebuildRequest demo_lib cr = Inr req
         \<and> Match (router routing_engine) req = Some default_upstream)
   \<and> (\<exists>w' p. Replay demo_lib routing_engine ''id-2'' 3 4 5 (Fails ''connection refused'') ''id-1''
                 one_flow_world = Returns (w', Inr (Some p))
         \<and> p \<noteq> 0 \<and> ID (heap w' p) = ''id-2''
         \<and> Request (heap w' p) = Request (heap one_flow_world 0)
         \<and> ''replay'' \<in> set (Tags (heap w' p)) \<and> ''replay:id-1'' \<in> set (Tags (heap w' p)))"
proof -
  let ?cr = "\<lparr>Headers = [], Body = [], Proto = ''HTTP/1.1'', BodyTruncated = False,
      Method = ''POST'', URL = ''/x'', Path = ''/x'', Host = ''localhost''\<rparr>"
  let ?req = "\<lparr>req_Method = ''POST'',
      req_URL = \<lparr>url_Scheme = [], url_Host = [], url_Path = ''/x'', url_RawQuery = []\<rparr>,
      req_Host = [], req_Header = [], req_Proto = ''HTTP/1.1'', req_Body = NoBody,
      req_ContentLength = 0, req_ctx = None\<rparr>"
  have orig: "Get (store one_flow_world) ''id-1'' = Some 0"
    by (simp add: one_flow_world_def Get_def Add_def NewFlowStore_def Let_def fresh_flow_def blank_flow_def)
  have fresh: "Get (store one_flow_world) ''id-2'' = None"
    by (simp add: one_flow_world_def Get_def Add_def NewFlowStore_def Let_def fresh_flow_def blank_flow_def)
  have cr: "Request (heap one_flow_world 0) = Some ?cr"
    by (simp add: one_flow_world_def fresh_flow_def blank_flow_def)
  have alloc: "0 < next_ptr one_flow_world" by (simp add: one_flow_world_def)
  have rebuild: "rebuildRequest demo_lib ?cr = Inr ?req"
    by (simp add: rebuildRequest_def http_NewRequest_def demo_lib_def Let_def)
  have route: "Match (router routing_engine) ?req = Some default_upstream"
    by (simp add: Match_def routing_engine_def logging_engine_def plain_engine_def default_upstream_def)
  have conf: "Name default_upstream \<in> set (proxies routing_engine)"
    by (simp add: routing_engine_def logging_engine_def plain_engine_def default_upstream_def)
  have m: "0 \<le> sint (MaxBodySize (opts routing_engine))"
    by (simp add: routing_engine_def logging_engine_def plain_engine_def)
  have obs: "\<forall>a \<in> set (addons routing_engine). keeps ID a \<and> keeps Request a \<and> keeps Tags a"
    by (simp add: routing_engine_def logging_engine_def plain_engine_def keeps_log_addon)
  from C5_replay_clones_request [OF orig cr alloc fresh rebuild route conf m obs,
      of 3 4 5 "Fails ''connection refused''"]
  obtain w' p where "Replay demo_lib routing_engine ''id-2'' 3 4 5 (Fails ''connection refused'') ''id-1''
                 one_flow_world = Returns (w', Inr (Some p))"
    "p \<noteq> 0" "ID (heap w' p) = ''id-2''" "Request (heap w' p) = Some ?cr"
    "''replay'' \<in> set (Tags (heap w' p))" "''replay:'' @ ''id-1'' \<in> set (Tags (heap w' p))"
    by blast
  then have "\<exists>w' p. Replay demo_lib routing_engine ''id-2'' 3 4 5 (Fails ''connection refused'') ''id-1''
                 one_flow_world = Returns (w', Inr (Some p))
         \<and> p \<noteq> 0 \<and> ID (heap w' p) = ''id-2''
         \<and> Request (heap w' p) = Request (heap one_flow_world 0)
         \<and> ''replay'' \<in> set (Tags (heap w' p)) \<and> ''replay:id-1'' \<in> set (Tags (heap w' p))"
    using cr by auto
  then show ?thesis using orig fresh cr rebuild route by blast
qed

section \<open>Flow lifecycle in a handler run (C4)\<close>

lemma steps_by_Cons: "steps_by R (a # b # rest) \<longleftrightarrow> R a b \<and> steps_by R (b # rest)"
  by simp




lemma steps_by_mono: "steps_by R xs \<Longrightarrow> (\<And>a b. R a b \<Longrightarrow> S a b) \<Longrightarrow> steps_by S xs"
  by (induction R xs rule: steps_by.induct) auto














section \<open>The filter language\<close>

subsection \<open>The scanners stay inside the input\<close>

lemma skipWS_ge: "pos \<le> skipWS inp pos"
proof (induction inp pos rule: skipWS.induct)
  case (1 inp pos)
  show ?case
  proof (cases "pos < length inp \<and> (inp ! pos = CHR '' '' \<or> inp ! pos = CHR 0x09)")
    case True
    with 1 have "pos + 1 \<le> skipWS inp (pos + 1)" by simp
    then show ?thesis using True by (subst skipWS.simps) simp
  next
    case False
    then show ?thesis by (subst skipWS.simps) auto
  qed
qed

lemma skipWS_le: "pos \<le> length inp \<Longrightarrow> skipWS inp pos \<le> length inp"
proof (induction inp pos rule: skipWS.induct)
  case (1 inp pos)
  show ?case
  proof (cases "pos < length inp \<and> (inp ! pos = CHR '' '' \<or> inp ! pos = CHR 0x09)")
    case True
    with 1 have "skipWS inp (pos + 1) \<le> length inp" by simp
    then show ?thesis using True by (subst skipWS.simps) simp
  next
    case False
    then show ?thesis using 1(2) by (subst skipWS.simps) auto
  qed
qed

lemma scanQuoted_ge: "pos \<le> scanQuoted inp pos"
proof (induction inp pos rule: scanQuoted.induct)
  case (1 inp pos)
  show ?case
  proof (cases "pos < length inp \<and> inp ! pos \<noteq> CHR 0x22")
    case True
    with 1 have "pos + 1 \<le> scanQuoted inp (pos + 1)" by simp
    then show ?thesis using True by (subst scanQuoted.simps) simp
  next
    case False
    then show ?thesis by (subst scanQuoted.simps) auto
  qed
qed

lemma scanArg_ge: "pos \<le> scanArg inp pos"
proof (induction inp pos rule: scanArg.induct)
  case (1 inp pos)
  let ?c = "pos < length inp \<and>
         \<not> (inp ! pos = CHR '' '' \<or> inp ! pos = CHR 0x09 \<or> inp ! pos = CHR ''&''
            \<or> inp ! pos = CHR ''|'' \<or> inp ! pos = CHR '')'')"
  show ?case
  proof (cases ?c)
    case True
    with 1 have "pos + 1 \<le> scanArg inp (pos + 1)" by simp
    then show ?thesis using True by (subst scanArg.simps) simp
  next
    case False
    then show ?thesis by (subst scanArg.simps) auto
  qed
qed

lemma scanArg_le: "pos \<le> length inp \<Longrightarrow> scanArg inp pos \<le> length inp"
proof (induction inp pos rule: scanArg.induct)
  case (1 inp pos)
  let ?c = "pos < length inp \<and>
         \<not> (inp ! pos = CHR '' '' \<or> inp ! pos = CHR 0x09 \<or> inp ! pos = CHR ''&''
            \<or> inp ! pos = CHR ''|'' \<or> inp ! pos = CHR '')'')"
  show ?case
  proof (cases ?c)
    case True
    with 1 have "scanArg inp (pos + 1) \<le> length inp" by simp
    then show ?thesis using True by (subst scanArg.simps) simp
  next
    case False
    then show ?thesis using 1(2) by (subst scanArg.simps) auto
  qed
qed

lemma parseQuoted_good: "pos < length inp \<Longrightarrow> good_arg inp pos (parseQuoted inp pos)"
  using scanQuoted_ge [of "pos + 1" inp]
  by (auto simp: parseQuoted_def good_arg_def slice_def Let_def)

lemma parseArg_good: "pos \<le> length inp \<Longrightarrow> good_arg inp pos (parseArg inp pos)"
proof -
  assume le: "pos \<le> length inp"
  let ?p = "skipWS inp pos"
  have a: "pos \<le> ?p" by (rule skipWS_ge)
  have b: "?p \<le> length inp" using le by (rule skipWS_le)
  show ?thesis
  proof (cases "?p \<ge> length inp")
    case True
    then show ?thesis by (simp add: parseArg_def good_arg_def Let_def)
  next
    case False
    then have lt: "?p < length inp" by simp
    show ?thesis
    proof (cases "inp ! ?p = CHR 0x22")
      case True
      have "good_arg inp ?p (parseQuoted inp ?p)" using lt by (rule parseQuoted_good)
      then have "good_arg inp pos (parseQuoted inp ?p)"
        using a by (auto simp: good_arg_def split: result.splits)
      then show ?thesis using lt True by (simp add: parseArg_def byte_at_def Let_def)
    next
      case False
      have c: "?p \<le> scanArg inp ?p" by (rule scanArg_ge)
      have d: "scanArg inp ?p \<le> length inp" using b by (rule scanArg_le)
      show ?thesis using lt False a c d
        by (auto simp: parseArg_def byte_at_def Let_def good_arg_def slice_def)
    qed
  qed
qed

subsection \<open>The primitives do not see the order of the headers\<close>

lemma header_loop_set:
  "header_loop key val hs \<longleftrightarrow>
     (\<exists>(k, vv) \<in> set hs. Contains (ToLower k) key \<and> (val = [] \<or> list_ex (\<lambda>v. Contains (ToLower v) val) vv))"
  by (induction key val hs rule: header_loop.induct) auto

lemma header_loop_cong: "set hs = set hs' \<Longrightarrow> header_loop key val hs = header_loop key val hs'"
  by (simp add: header_loop_set)

lemma unordered_req:
  assumes "unordered (a :: CapturedRequest) = unordered b"
  shows "Method a = Method b" "Path a = Path b" "Body a = Body b" "set (Headers a) = set (Headers b)"
proof -
  from assms have e: "a\<lparr>Headers := []\<rparr> = b\<lparr>Headers := []\<rparr>" and s: "set (Headers a) = set (Headers b)"
    by (simp_all add: unordered_def)
  from e have "Method (a\<lparr>Headers := []\<rparr>) = Method (b\<lparr>Headers := []\<rparr>)" by (rule arg_cong)
  then show "Method a = Method b" by simp
  from e have "Path (a\<lparr>Headers := []\<rparr>) = Path (b\<lparr>Headers := []\<rparr>)" by (rule arg_cong)
  then show "Path a = Path b" by simp
  from e have "Body (a\<lparr>Headers := []\<rparr>) = Body (b\<lparr>Headers := []\<rparr>)" by (rule arg_cong)
  then show "Body a = Body b" by simp
  show "set (Headers a) = set (Headers b)" by (rule s)
qed

lemma unordered_resp:
  assumes "unordered (a :: CapturedResponse) = unordered b"
  shows "StatusCode a = StatusCode b" "Body a = Body b" "set (Headers a) = set (Headers b)"
proof -
  from assms have e: "a\<lparr>Headers := []\<rparr> = b\<lparr>Headers := []\<rparr>" and s: "set (Headers a) = set (Headers b)"
    by (simp_all add: unordered_def)
  from e have "StatusCode (a\<lparr>Headers := []\<rparr>) = StatusCode (b\<lparr>Headers := []\<rparr>)" by (rule arg_cong)
  then show "StatusCode a = StatusCode b" by simp
  from e have "Body (a\<lparr>Headers := []\<rparr>) = Body (b\<lparr>Headers := []\<rparr>)" by (rule arg_cong)
  then show "Body a = Body b" by simp
  show "set (Headers a) = set (Headers b)" by (rule s)
qed

lemma on_Request:
  assumes s: "same_up_to_header_order f g"
    and h: "\<And>a b. unordered a = unordered b \<Longrightarrow> P a = P b"
  shows "(case Request f of None \<Rightarrow> False | Some r \<Rightarrow> P r)
       = (case Request g of None \<Rightarrow> False | Some r \<Rightarrow> P r)"
proof -
  from s have e: "map_option unordered (Request f) = map_option unordered (Request g)"
    by (simp add: same_up_to_header_order_def)
  show ?thesis
  proof (cases "Request f")
    case None
    with e have "Request g = None" by simp
    with None show ?thesis by simp
  next
    case (Some a)
    with e obtain b where b: "Request g = Some b" "unordered a = unordered b" by (cases "Request g") auto
    then show ?thesis using Some h [OF b(2)] by simp
  qed
qed

lemma on_Response:
  assumes s: "same_up_to_header_order f g"
    and h: "\<And>a b. unordered a = unordered b \<Longrightarrow> P a = P b"
  shows "(case Response f of None \<Rightarrow> False | Some r \<Rightarrow> P r)
       = (case Response g of None \<Rightarrow> False | Some r \<Rightarrow> P r)"
proof -
  from s have e: "map_option unordered (Response f) = map_option unordered (Response g)"
    by (simp add: same_up_to_header_order_def)
  show ?thesis
  proof (cases "Response f")
    case None
    with e have "Response g = None" by simp
    with None show ?thesis by simp
  next
    case (Some a)
    with e obtain b where b: "Response g = Some b" "unordered a = unordered b" by (cases "Response g") auto
    then show ?thesis using Some h [OF b(2)] by simp
  qed
qed

lemma same_Upstream:
  assumes "same_up_to_header_order f g"
  shows "Upstream f = Upstream g"
proof -
  from assms have "f\<lparr>Request := None, Response := None\<rparr> = g\<lparr>Request := None, Response := None\<rparr>"
    by (simp add: same_up_to_header_order_def)
  then have "Upstream (f\<lparr>Request := None, Response := None\<rparr>) = Upstream (g\<lparr>Request := None, Response := None\<rparr>)"
    by (rule arg_cong)
  then show ?thesis by simp
qed

lemma order_blind_MatchAll: "order_blind MatchAll"
  by (simp add: order_blind_def MatchAll_def)

lemma order_blind_method: "order_blind (methodFilter arg)"
proof -
  have "methodFilter arg f = methodFilter arg g" if s: "same_up_to_header_order f g" for f g
    unfolding methodFilter_def Let_def
    by (rule on_Request [OF s]) (auto dest: unordered_req(1))
  then show ?thesis by (simp add: order_blind_def)
qed

lemma order_blind_path: "order_blind (pathFilter arg)"
proof -
  have "pathFilter arg f = pathFilter arg g" if s: "same_up_to_header_order f g" for f g
    unfolding pathFilter_def Let_def
    by (rule on_Request [OF s]) (auto dest: unordered_req(2))
  then show ?thesis by (simp add: order_blind_def)
qed

lemma order_blind_status: "order_blind (statusFilter arg)"
proof -
  have "statusFilter arg f = statusFilter arg g" if s: "same_up_to_header_order f g" for f g
    unfolding statusFilter_def
    by (rule on_Response [OF s]) (auto dest: unordered_resp(1))
  then show ?thesis by (simp add: order_blind_def)
qed

lemma order_blind_upstream: "order_blind (upstreamFilter arg)"
proof -
  have "upstreamFilter arg f = upstreamFilter arg g" if s: "same_up_to_header_order f g" for f g
    unfolding upstreamFilter_def Let_def same_Upstream [OF s] ..
  then show ?thesis by (simp add: order_blind_def)
qed

lemma order_blind_body: "order_blind (bodyFilter arg)"
proof -
  have "bodyFilter arg f = bodyFilter arg g" if s: "same_up_to_header_order f g" for f g
  proof -
    have a: "(case Request f of None \<Rightarrow> False | Some r \<Rightarrow> Contains (ToLower (Body r)) (ToLower arg))
           = (case Request g of None \<Rightarrow> False | Some r \<Rightarrow> Contains (ToLower (Body r)) (ToLower arg))"
      by (rule on_Request [OF s]) (auto dest: unordered_req(3))
    have b: "(case Response f of None \<Rightarrow> False | Some r \<Rightarrow> Contains (ToLower (Body r)) (ToLower arg))
           = (case Response g of None \<Rightarrow> False | Some r \<Rightarrow> Contains (ToLower (Body r)) (ToLower arg))"
      by (rule on_Response [OF s]) (auto dest: unordered_resp(2))
    show ?thesis unfolding bodyFilter_def Let_def a b ..
  qed
  then show ?thesis by (simp add: order_blind_def)
qed

lemma order_blind_header: "order_blind (headerFilter arg)"
proof -
  have "headerFilter arg f = headerFilter arg g" if s: "same_up_to_header_order f g" for f g
  proof -
    have a: "(case Request f of None \<Rightarrow> False | Some r \<Rightarrow> header_loop key val (Headers r))
           = (case Request g of None \<Rightarrow> False | Some r \<Rightarrow> header_loop key val (Headers r))" for key val
      by (rule on_Request [OF s]) (rule header_loop_cong, erule unordered_req(4))
    have b: "(case Response f of None \<Rightarrow> False | Some r \<Rightarrow> header_loop key val (Headers r))
           = (case Response g of None \<Rightarrow> False | Some r \<Rightarrow> header_loop key val (Headers r))" for key val
      by (rule on_Response [OF s]) (rule header_loop_cong, erule unordered_resp(3))
    show ?thesis unfolding headerFilter_def Let_def a b ..
  qed
  then show ?thesis by (simp add: order_blind_def)
qed

lemma order_blind_or: "order_blind l \<Longrightarrow> order_blind r \<Longrightarrow> order_blind (\<lambda>f. l f \<or> r f)"
  by (simp add: order_blind_def)

lemma order_blind_and: "order_blind l \<Longrightarrow> order_blind r \<Longrightarrow> order_blind (\<lambda>f. l f \<and> r f)"
  by (simp add: order_blind_def)

lemma order_blind_not: "order_blind l \<Longrightarrow> order_blind (\<lambda>f. \<not> l f)"
  by (simp add: order_blind_def)

subsection \<open>The parser returns, with a predicate or with an error\<close>

lemma good_arg_cases:
  assumes "good_arg inp pos r"
  obtains (ok) s pos' where "r = Ok (s, pos')" "pos \<le> pos'" "pos' \<le> length inp"
        | (err) e where "r = Err e" "\<And>p. position e = Some p \<Longrightarrow> p \<le> length inp"
  using assms by (cases r) (auto simp: good_arg_def split: option.splits)

lemma good_cases:
  assumes "good inp pos r"
  obtains (ok) f pos' where "r = Ok (f, pos')" "pos \<le> pos'" "pos' \<le> length inp" "order_blind f"
        | (err) e where "r = Err e" "\<And>p. position e = Some p \<Longrightarrow> p \<le> length inp"
  using assms by (cases r) (auto simp: good_def split: option.splits)

lemma good_OkI: "pos \<le> pos' \<Longrightarrow> pos' \<le> length inp \<Longrightarrow> order_blind f \<Longrightarrow> good inp pos (Ok (f, pos'))"
  by (simp add: good_def)

lemma good_ErrI: "(\<And>p. position e = Some p \<Longrightarrow> p \<le> length inp) \<Longrightarrow> good inp pos (Err e)"
  by (auto simp: good_def split: option.splits)

lemma good_weaken: "good inp pos r \<Longrightarrow> pos0 \<le> pos \<Longrightarrow> good inp pos0 r"
  by (cases r) (auto simp: good_def)

lemma parsePrimitive_good:
  assumes le: "pos \<le> length inp"
  shows "good inp pos (parsePrimitive inp pos)"
proof -
  let ?p1 = "skipWS inp pos"
  have a1: "pos \<le> ?p1" by (rule skipWS_ge)
  have b1: "?p1 \<le> length inp" using le by (rule skipWS_le)
  show ?thesis
  proof (cases "?p1 + 1 \<ge> length inp \<or> inp ! ?p1 \<noteq> CHR ''~''")
    case True
    then have "parsePrimitive inp pos = Err (ExpectedTilde ?p1)"
      by (simp add: parsePrimitive_def Let_def)
    then show ?thesis using b1 by (simp add: good_def)
  next
    case False
    then have lt: "?p1 + 1 < length inp" and tilde: "inp ! ?p1 = CHR ''~''" by auto
    let ?kind = "inp ! Suc ?p1"
    let ?p4 = "skipWS inp (Suc (Suc ?p1))"
    have a4: "Suc (Suc ?p1) \<le> ?p4" by (rule skipWS_ge)
    have b4: "?p4 \<le> length inp" using lt by (intro skipWS_le) simp
    have unfold: "parsePrimitive inp pos =
        (case parseArg inp ?p4 of
           Ok (arg, pos) \<Rightarrow>
             if ?kind = CHR ''m'' then Ok (methodFilter arg, pos)
             else if ?kind = CHR ''s'' then Ok (statusFilter arg, pos)
             else if ?kind = CHR ''p'' then Ok (pathFilter arg, pos)
             else if ?kind = CHR ''h'' then Ok (headerFilter arg, pos)
             else if ?kind = CHR ''b'' then Ok (bodyFilter arg, pos)
             else if ?kind = CHR ''u'' then Ok (upstreamFilter arg, pos)
             else Err (UnknownFilterType ?kind)
         | r \<Rightarrow> propagate r)"
      using lt tilde by (simp add: parsePrimitive_def Let_def byte_at_def)
    have "good_arg inp ?p4 (parseArg inp ?p4)" using b4 by (rule parseArg_good)
    then show ?thesis
    proof (cases rule: good_arg_cases)
      case (ok s pos')
      have p: "pos \<le> pos'" using a1 a4 ok(2) by simp
      show ?thesis unfolding unfold ok(1)
        using p ok(3)
        by (simp add: good_def order_blind_method order_blind_status order_blind_path
            order_blind_header order_blind_body order_blind_upstream)
    next
      case (err e)
      show ?thesis unfolding unfold err(1)
        using err(2) by (auto simp: good_def propagate_def split: option.splits)
    qed
  qed
qed

lemma fits_step:
  "fits (Suc n) inp pos c \<Longrightarrow> pos \<le> pos' \<Longrightarrow> pos' \<le> length inp
   \<Longrightarrow> c' + 1 \<le> c + 6 * (pos' - pos) \<Longrightarrow> fits n inp pos' c'"
  unfolding fits_def by auto

lemma good_propagate:
  assumes "good inp pos r" and "\<And>f pos'. r \<noteq> Ok (f, pos')"
  shows "good inp pos0 (propagate r)"
  using assms by (cases r) (auto simp: good_def propagate_def)

lemma step_atom:
  assumes IHor: "\<And>pos. fits n inp pos 6 \<Longrightarrow> good inp pos (parseOr n inp pos)"
    and fit: "fits (Suc n) inp pos 1"
  shows "good inp pos (parseAtom (Suc n) inp pos)"
proof -
  let ?p1 = "skipWS inp pos"
  have le: "pos \<le> length inp" using fit by (simp add: fits_def)
  have a1: "pos \<le> ?p1" by (rule skipWS_ge)
  have b1: "?p1 \<le> length inp" using le by (rule skipWS_le)
  show ?thesis
  proof (cases "?p1 \<ge> length inp")
    case True
    then show ?thesis by (simp add: Let_def good_def)
  next
    case False
    then have lt: "?p1 < length inp" by simp
    show ?thesis
    proof (cases "inp ! ?p1 = CHR ''(''")
      case False
      have "good inp ?p1 (parsePrimitive inp ?p1)" using b1 by (rule parsePrimitive_good)
      then have "good inp pos (parsePrimitive inp ?p1)" using a1 by (rule good_weaken)
      then show ?thesis using lt False by (simp add: Let_def byte_at_def)
    next
      case True
      have f: "fits n inp (Suc ?p1) 6" using fit a1 lt by (intro fits_step [OF fit]) auto
      have g: "good inp (Suc ?p1) (parseOr n inp (Suc ?p1))" using f by (rule IHor)
      have unfold: "parseAtom (Suc n) inp pos =
         (case parseOr n inp (Suc ?p1) of
            Ok (inner, pos1) \<Rightarrow>
              (let pos2 = skipWS inp pos1 in
               if pos2 \<ge> length inp \<or> inp ! pos2 \<noteq> CHR '')'' then Err ExpectedClosingParen
               else Ok (inner, pos2 + 1))
          | r \<Rightarrow> propagate r)"
        using lt True by (simp add: Let_def byte_at_def)
      from g show ?thesis
      proof (cases rule: good_cases)
        case (ok f' pos1)
        let ?p2 = "skipWS inp pos1"
        have a2: "pos1 \<le> ?p2" by (rule skipWS_ge)
        show ?thesis unfolding unfold ok(1)
          using a1 a2 ok(2,4) by (auto simp: good_def Let_def)
      next
        case (err e)
        show ?thesis unfolding unfold err(1)
          using err(2) by (auto simp: good_def propagate_def split: option.splits)
      qed
    qed
  qed
qed

lemma step_not:
  assumes IHatom: "\<And>pos. fits n inp pos 1 \<Longrightarrow> good inp pos (parseAtom n inp pos)"
    and fit: "fits (Suc n) inp pos 2"
  shows "good inp pos (parseNot (Suc n) inp pos)"
proof -
  let ?p1 = "skipWS inp pos"
  have le: "pos \<le> length inp" using fit by (simp add: fits_def)
  have a1: "pos \<le> ?p1" by (rule skipWS_ge)
  have b1: "?p1 \<le> length inp" using le by (rule skipWS_le)
  show ?thesis
  proof (cases "?p1 < length inp \<and> inp ! ?p1 = CHR ''!''")
    case False
    have "fits n inp ?p1 1" using a1 b1 by (intro fits_step [OF fit]) auto
    then have "good inp ?p1 (parseAtom n inp ?p1)" by (rule IHatom)
    then have "good inp pos (parseAtom n inp ?p1)" using a1 by (rule good_weaken)
    then show ?thesis using False by (auto simp: Let_def)
  next
    case True
    then have lt: "?p1 < length inp" by simp
    have "fits n inp (Suc ?p1) 1" using a1 lt by (intro fits_step [OF fit]) auto
    then have g: "good inp (Suc ?p1) (parseAtom n inp (Suc ?p1))" by (rule IHatom)
    have unfold: "parseNot (Suc n) inp pos =
         (case parseAtom n inp (Suc ?p1) of
            Ok (inner, pos1) \<Rightarrow> Ok (\<lambda>f. \<not> inner f, pos1)
          | r \<Rightarrow> propagate r)"
      using True by (simp add: Let_def)
    from g show ?thesis
    proof (cases rule: good_cases)
      case (ok f' pos1)
      show ?thesis unfolding unfold ok(1)
        using a1 ok(2,3,4) by (simp add: good_def order_blind_not)
    next
      case (err e)
      show ?thesis unfolding unfold err(1)
        using err(2) by (auto simp: good_def propagate_def split: option.splits)
    qed
  qed
qed

lemma step_andLoop:
  assumes IHnot: "\<And>pos. fits n inp pos 2 \<Longrightarrow> good inp pos (parseNot n inp pos)"
    and IHloop: "\<And>pos left. fits n inp pos 3 \<Longrightarrow> order_blind left \<Longrightarrow> good inp pos (andLoop n inp left pos)"
    and fit: "fits (Suc n) inp pos 3" and ob: "order_blind left"
  shows "good inp pos (andLoop (Suc n) inp left pos)"
proof -
  let ?p1 = "skipWS inp pos"
  have le: "pos \<le> length inp" using fit by (simp add: fits_def)
  have a1: "pos \<le> ?p1" by (rule skipWS_ge)
  have b1: "?p1 \<le> length inp" using le by (rule skipWS_le)
  show ?thesis
  proof (cases "?p1 < length inp \<and> inp ! ?p1 = CHR ''&''")
    case False
    then show ?thesis using a1 b1 ob by (auto simp: Let_def good_def)
  next
    case True
    then have lt: "?p1 < length inp" by simp
    have "fits n inp (Suc ?p1) 2" using a1 lt by (intro fits_step [OF fit]) auto
    then have g: "good inp (Suc ?p1) (parseNot n inp (Suc ?p1))" by (rule IHnot)
    have unfold: "andLoop (Suc n) inp left pos =
         (case parseNot n inp (Suc ?p1) of
            Ok (right, pos2) \<Rightarrow> andLoop n inp (\<lambda>f. left f \<and> right f) pos2
          | r \<Rightarrow> propagate r)"
      using True by (simp add: Let_def)
    from g show ?thesis
    proof (cases rule: good_cases)
      case (ok right pos2)
      have "fits n inp pos2 3" using a1 ok(2,3) by (intro fits_step [OF fit]) auto
      then have "good inp pos2 (andLoop n inp (\<lambda>f. left f \<and> right f) pos2)"
        by (rule IHloop) (rule order_blind_and [OF ob ok(4)])
      then have "good inp pos (andLoop n inp (\<lambda>f. left f \<and> right f) pos2)"
        by (rule good_weaken) (use a1 ok(2) in auto)
      then show ?thesis unfolding unfold ok(1) by simp
    next
      case (err e)
      show ?thesis unfolding unfold err(1)
        using err(2) by (auto simp: good_def propagate_def split: option.splits)
    qed
  qed
qed

lemma step_and:
  assumes IHnot: "\<And>pos. fits n inp pos 2 \<Longrightarrow> good inp pos (parseNot n inp pos)"
    and IHloop: "\<And>pos left. fits n inp pos 3 \<Longrightarrow> order_blind left \<Longrightarrow> good inp pos (andLoop n inp left pos)"
    and fit: "fits (Suc n) inp pos 4"
  shows "good inp pos (parseAnd (Suc n) inp pos)"
proof -
  have le: "pos \<le> length inp" using fit by (simp add: fits_def)
  have "fits n inp pos 2" using le by (intro fits_step [OF fit]) auto
  then have g: "good inp pos (parseNot n inp pos)" by (rule IHnot)
  from g show ?thesis
  proof (cases rule: good_cases)
    case (ok left pos1)
    have "fits n inp pos1 3" using ok(2,3) by (intro fits_step [OF fit]) auto
    then have "good inp pos1 (andLoop n inp left pos1)" using ok(4) by (rule IHloop)
    then have "good inp pos (andLoop n inp left pos1)" using ok(2) by (rule good_weaken)
    then show ?thesis using ok(1) by simp
  next
    case (err e)
    show ?thesis using err by (auto simp: good_def propagate_def split: option.splits)
  qed
qed

lemma step_orLoop:
  assumes IHand: "\<And>pos. fits n inp pos 4 \<Longrightarrow> good inp pos (parseAnd n inp pos)"
    and IHloop: "\<And>pos left. fits n inp pos 5 \<Longrightarrow> order_blind left \<Longrightarrow> good inp pos (orLoop n inp left pos)"
    and fit: "fits (Suc n) inp pos 5" and ob: "order_blind left"
  shows "good inp pos (orLoop (Suc n) inp left pos)"
proof -
  let ?p1 = "skipWS inp pos"
  have le: "pos \<le> length inp" using fit by (simp add: fits_def)
  have a1: "pos \<le> ?p1" by (rule skipWS_ge)
  have b1: "?p1 \<le> length inp" using le by (rule skipWS_le)
  show ?thesis
  proof (cases "?p1 + 1 < length inp \<and> inp ! ?p1 = CHR ''|''")
    case False
    then show ?thesis using a1 b1 ob by (auto simp: Let_def good_def)
  next
    case True
    then have lt: "?p1 < length inp" by simp
    have "fits n inp (Suc ?p1) 4" using a1 lt by (intro fits_step [OF fit]) auto
    then have g: "good inp (Suc ?p1) (parseAnd n inp (Suc ?p1))" by (rule IHand)
    have unfold: "orLoop (Suc n) inp left pos =
         (case parseAnd n inp (Suc ?p1) of
            Ok (right, pos2) \<Rightarrow> orLoop n inp (\<lambda>f. left f \<or> right f) pos2
          | r \<Rightarrow> propagate r)"
      using True by (simp add: Let_def)
    from g show ?thesis
    proof (cases rule: good_cases)
      case (ok right pos2)
      have "fits n inp pos2 5" using a1 ok(2,3) by (intro fits_step [OF fit]) auto
      then have "good inp pos2 (orLoop n inp (\<lambda>f. left f \<or> right f) pos2)"
        by (rule IHloop) (rule order_blind_or [OF ob ok(4)])
      then have "good inp pos (orLoop n inp (\<lambda>f. left f \<or> right f) pos2)"
        by (rule good_weaken) (use a1 ok(2) in auto)
      then show ?thesis unfolding unfold ok(1) by simp
    next
      case (err e)
      show ?thesis unfolding unfold err(1)
        using err(2) by (auto simp: good_def propagate_def split: option.splits)
    qed
  qed
qed

lemma step_or:
  assumes IHand: "\<And>pos. fits n inp pos 4 \<Longrightarrow> good inp pos (parseAnd n inp pos)"
    and IHloop: "\<And>pos left. fits n inp pos 5 \<Longrightarrow> order_blind left \<Longrightarrow> good inp pos (orLoop n inp left pos)"
    and fit: "fits (Suc n) inp pos 6"
  shows "good inp pos (parseOr (Suc n) inp pos)"
proof -
  have le: "pos \<le> length inp" using fit by (simp add: fits_def)
  have "fits n inp pos 4" using le by (intro fits_step [OF fit]) auto
  then have g: "good inp pos (parseAnd n inp pos)" by (rule IHand)
  from g show ?thesis
  proof (cases rule: good_cases)
    case (ok left pos1)
    have "fits n inp pos1 5" using ok(2,3) by (intro fits_step [OF fit]) auto
    then have "good inp pos1 (orLoop n inp left pos1)" using ok(4) by (rule IHloop)
    then have "good inp pos (orLoop n inp left pos1)" using ok(2) by (rule good_weaken)
    then show ?thesis using ok(1) by simp
  next
    case (err e)
    show ?thesis using err by (auto simp: good_def propagate_def split: option.splits)
  qed
qed

lemma parse_good:
  "(\<forall>pos. fits n inp pos 6 \<longrightarrow> good inp pos (parseOr n inp pos)) \<and>
   (\<forall>pos left. fits n inp pos 5 \<longrightarrow> order_blind left \<longrightarrow> good inp pos (orLoop n inp left pos)) \<and>
   (\<forall>pos. fits n inp pos 4 \<longrightarrow> good inp pos (parseAnd n inp pos)) \<and>
   (\<forall>pos left. fits n inp pos 3 \<longrightarrow> order_blind left \<longrightarrow> good inp pos (andLoop n inp left pos)) \<and>
   (\<forall>pos. fits n inp pos 2 \<longrightarrow> good inp pos (parseNot n inp pos)) \<and>
   (\<forall>pos. fits n inp pos 1 \<longrightarrow> good inp pos (parseAtom n inp pos))"
proof (induction n)
  case 0
  show ?case by (simp add: fits_def)
next
  case (Suc n)
  from Suc have o: "\<And>pos. fits n inp pos 6 \<Longrightarrow> good inp pos (parseOr n inp pos)" by simp
  from Suc have ol: "\<And>pos left. fits n inp pos 5 \<Longrightarrow> order_blind left \<Longrightarrow> good inp pos (orLoop n inp left pos)"
    by simp
  from Suc have a: "\<And>pos. fits n inp pos 4 \<Longrightarrow> good inp pos (parseAnd n inp pos)" by simp
  from Suc have al: "\<And>pos left. fits n inp pos 3 \<Longrightarrow> order_blind left \<Longrightarrow> good inp pos (andLoop n inp left pos)"
    by simp
  from Suc have nt: "\<And>pos. fits n inp pos 2 \<Longrightarrow> good inp pos (parseNot n inp pos)" by simp
  from Suc have at: "\<And>pos. fits n inp pos 1 \<Longrightarrow> good inp pos (parseAtom n inp pos)" by simp
  have 1: "\<forall>pos. fits (Suc n) inp pos 6 \<longrightarrow> good inp pos (parseOr (Suc n) inp pos)"
    using step_or [of n inp] a ol by blast
  have 2: "\<forall>pos left. fits (Suc n) inp pos 5 \<longrightarrow> order_blind left \<longrightarrow> good inp pos (orLoop (Suc n) inp left pos)"
    using step_orLoop [of n inp] a ol by blast
  have 3: "\<forall>pos. fits (Suc n) inp pos 4 \<longrightarrow> good inp pos (parseAnd (Suc n) inp pos)"
    using step_and [of n inp] nt al by blast
  have 4: "\<forall>pos left. fits (Suc n) inp pos 3 \<longrightarrow> order_blind left \<longrightarrow> good inp pos (andLoop (Suc n) inp left pos)"
    using step_andLoop [of n inp] nt al by blast
  have 5: "\<forall>pos. fits (Suc n) inp pos 2 \<longrightarrow> good inp pos (parseNot (Suc n) inp pos)"
    using step_not [of n inp] at by blast
  have 6: "\<forall>pos. fits (Suc n) inp pos 1 \<longrightarrow> good inp pos (parseAtom (Suc n) inp pos)"
    using step_atom [of n inp] o by blast
  show ?case using 1 2 3 4 5 6 by (intro conjI)
qed

lemma parseOr_good: "good inp 0 (parseOr (6 * length inp + 6) inp 0)"
proof -
  have "fits (6 * length inp + 6) inp 0 6" by (simp add: fits_def)
  with parse_good [of "6 * length inp + 6" inp] show ?thesis by blast
qed

text \<open>More fuel does not change a result that was reached.\<close>


lemma propagate_NoFuel: "propagate NoFuel = NoFuel"
  by (simp add: propagate_def)

lemma fuel_step:
  "(\<forall>pos. parseOr n inp pos \<noteq> NoFuel \<longrightarrow> parseOr (Suc n) inp pos = parseOr n inp pos) \<and>
   (\<forall>pos left. orLoop n inp left pos \<noteq> NoFuel \<longrightarrow> orLoop (Suc n) inp left pos = orLoop n inp left pos) \<and>
   (\<forall>pos. parseAnd n inp pos \<noteq> NoFuel \<longrightarrow> parseAnd (Suc n) inp pos = parseAnd n inp pos) \<and>
   (\<forall>pos left. andLoop n inp left pos \<noteq> NoFuel \<longrightarrow> andLoop (Suc n) inp left pos = andLoop n inp left pos) \<and>
   (\<forall>pos. parseNot n inp pos \<noteq> NoFuel \<longrightarrow> parseNot (Suc n) inp pos = parseNot n inp pos) \<and>
   (\<forall>pos. parseAtom n inp pos \<noteq> NoFuel \<longrightarrow> parseAtom (Suc n) inp pos = parseAtom n inp pos)"
proof (induction n)
  case 0
  show ?case by simp
next
  case (Suc n)
  have 1: "parseOr (Suc n) inp pos \<noteq> NoFuel \<Longrightarrow> parseOr (Suc (Suc n)) inp pos = parseOr (Suc n) inp pos" for pos
    using Suc by (cases "parseAnd n inp pos") (auto simp: propagate_def)
  have 2: "orLoop (Suc n) inp left pos \<noteq> NoFuel \<Longrightarrow> orLoop (Suc (Suc n)) inp left pos = orLoop (Suc n) inp left pos" for pos left
    using Suc by (cases "parseAnd n inp (skipWS inp pos + 1)") (auto simp: propagate_def Let_def)
  have 3: "parseAnd (Suc n) inp pos \<noteq> NoFuel \<Longrightarrow> parseAnd (Suc (Suc n)) inp pos = parseAnd (Suc n) inp pos" for pos
    using Suc by (cases "parseNot n inp pos") (auto simp: propagate_def)
  have 4: "andLoop (Suc n) inp left pos \<noteq> NoFuel \<Longrightarrow> andLoop (Suc (Suc n)) inp left pos = andLoop (Suc n) inp left pos" for pos left
    using Suc by (cases "parseNot n inp (skipWS inp pos + 1)") (auto simp: propagate_def Let_def)
  have 5: "parseNot (Suc n) inp pos \<noteq> NoFuel \<Longrightarrow> parseNot (Suc (Suc n)) inp pos = parseNot (Suc n) inp pos" for pos
    using Suc by (cases "parseAtom n inp (skipWS inp pos + 1)") (auto simp: propagate_def Let_def)
  have 6: "parseAtom (Suc n) inp pos \<noteq> NoFuel \<Longrightarrow> parseAtom (Suc (Suc n)) inp pos = parseAtom (Suc n) inp pos" for pos
    using Suc by (cases "parseOr n inp (skipWS inp pos + 1)") (auto simp: propagate_def Let_def split: option.splits)
  from 1 2 3 4 5 6 show ?case by blast
qed

lemma parseOr_more_fuel:
  "parseOr n inp pos \<noteq> NoFuel \<Longrightarrow> parseOr (n + k) inp pos = parseOr n inp pos"
proof (induction k)
  case 0
  show ?case by simp
next
  case (Suc k)
  then have "parseOr (n + k) inp pos \<noteq> NoFuel" by simp
  with fuel_step [of "n + k" inp] have "parseOr (Suc (n + k)) inp pos = parseOr (n + k) inp pos" by blast
  with Suc show ?case by simp
qed

lemma parseOr_enough_fuel:
  assumes "6 * length inp + 6 \<le> n"
  shows "parseOr n inp 0 = parseOr (6 * length inp + 6) inp 0"
proof -
  from parseOr_good [of inp] have "parseOr (6 * length inp + 6) inp 0 \<noteq> NoFuel"
    by (auto simp: good_def)
  from parseOr_more_fuel [OF this, of "n - (6 * length inp + 6)"] assms show ?thesis by simp
qed

lemma Parse_total:
  "(\<exists>f. Parse expr = Ok f \<and> order_blind f) \<or>
   (\<exists>e. Parse expr = Err e \<and> (case position e of Some p \<Rightarrow> p \<le> length (TrimSpace expr) | None \<Rightarrow> True))"
proof (cases "TrimSpace expr = []")
  case True
  then show ?thesis by (simp add: Parse_def order_blind_MatchAll)
next
  case False
  let ?x = "TrimSpace expr"
  from parseOr_good [of ?x] show ?thesis
  proof (cases rule: good_cases)
    case (ok f pos')
    then show ?thesis using False by (auto simp: Parse_def Let_def slice_def)
  next
    case (err e)
    then show ?thesis using False by (auto simp: Parse_def Let_def propagate_def split: option.splits)
  qed
qed



text \<open>An empty argument, trailing input and a missing \<open>~\<close> are reported with their offset.\<close>

lemma positioned_error_examples:
  "error_of (Parse ''~m &'') = Some (EmptyArgument 3)"
  "error_of (Parse ''~m a b'') = Some (UnexpectedToken 5 ''b'')"
  "error_of (Parse ''foo'') = Some (ExpectedTilde 0)"
  by code_simp+

text \<open>
  Claim C8: for an expression that parses, any two parses give predicates that agree on every
  flow, and the predicate gives the same boolean on two readings of one flow, which can
  differ only in the order in which the header maps are iterated.
\<close>

theorem C8_parse_deterministic:
  assumes "Parse e = Ok f"
  shows "(\<forall>g. Parse e = Ok g \<longrightarrow> (\<forall>fl. g fl = f fl))
       \<and> (\<forall>fl fl'. same_up_to_header_order fl fl' \<longrightarrow> f fl = f fl')"
proof -
  from Parse_total [of e] assms have "order_blind f" by auto
  then show ?thesis using assms by (auto simp: order_blind_def)
qed

lemma demo_same: "same_up_to_header_order flow_headers_ab flow_headers_ba"
  by (auto simp: same_up_to_header_order_def flow_headers_ab_def flow_headers_ba_def
      flow_with_headers_def unordered_def)

lemma demo_parses: "error_of (Parse ''~h content:json & ~m POST'') = None"
  by code_simp

theorem C8_parse_deterministic_witness:
  "\<exists>f. Parse ''~h content:json & ~m POST'' = Ok f \<and> f flow_headers_ab = f flow_headers_ba"
proof -
  from Parse_total [of "''~h content:json & ~m POST''"] demo_parses
  obtain f where f: "Parse ''~h content:json & ~m POST'' = Ok f"
    by (auto simp: error_of_def)
  from C8_parse_deterministic [OF f] demo_same have "f flow_headers_ab = f flow_headers_ba" by blast
  with f show ?thesis by blast
qed

end
